theory Spec2Isabelle
  imports Main
begin

section \<open>External cell buttons of the interactive window\<close>

text \<open>
  \<open>InteractiveBase.externalButtons\<close> is an array of button descriptions. The callback of
  a button is a closure; it is kept as the identity of that closure, and \<open>None\<close> is the
  \<open>undefined\<close> that \<open>{ ...b, callback: undefined }\<close> puts there before the list is posted
  to the webview. \<open>statusToEnable\<close> holds values of the enum \<open>CellState\<close>, kept as numbers.
\<close>

record button =
  buttonId :: string
  callback :: "nat option"
  codicon :: string
  statusToEnable :: "int list"
  tooltip :: string
  running :: bool

text \<open>
  The part of the window that \<open>createWebviewCellButton\<close> touches: the array, and the
  payloads of the \<open>UpdateExternalCellButtons\<close> messages posted so far (oldest first).
\<close>

record window =
  externalButtons :: "button list"
  posted :: "button list list"

text \<open>\<open>Array.prototype.findIndex\<close>: the first index whose element satisfies the test, or -1.\<close>

fun findIndex :: "('a \<Rightarrow> bool) \<Rightarrow> 'a list \<Rightarrow> int" where
  "findIndex p [] = - 1"
| "findIndex p (x # xs) =
     (if p x then 0 else (let i = findIndex p xs in if i = - 1 then - 1 else i + 1))"

text \<open>\<open>xs.splice(i, 1)\<close> for an index inside the array: the element at \<open>i\<close> is taken out.\<close>

definition splice1 :: "nat \<Rightarrow> 'a list \<Rightarrow> 'a list" where
  "splice1 i xs = take i xs @ drop (Suc i) xs"

definition postButtons :: "window \<Rightarrow> window" where
  "postButtons w =
     w\<lparr>posted := posted w @ [map (\<lambda>b. b\<lparr>callback := None\<rparr>) (externalButtons w)]\<rparr>"

text \<open>The returned \<open>IDisposable\<close> is a closure over \<open>buttonId\<close> and the window.\<close>

datatype disposable = Disposable string

definition createWebviewCellButton ::
  "string \<Rightarrow> nat \<Rightarrow> string \<Rightarrow> int list \<Rightarrow> string \<Rightarrow> window \<Rightarrow> disposable \<times> window" where
  "createWebviewCellButton bid cb icon statuses tip w =
     (let index = findIndex (\<lambda>b. buttonId b = bid) (externalButtons w);
          w' = (if index = - 1
                then postButtons (w\<lparr>externalButtons := externalButtons w @
                       [\<lparr>buttonId = bid, callback = Some cb, codicon = icon,
                         statusToEnable = statuses, tooltip = tip, running = False\<rparr>]\<rparr>)
                else w)
      in (Disposable bid, w'))"

fun dispose :: "disposable \<Rightarrow> window \<Rightarrow> window" where
  "dispose (Disposable bid) w =
     (let buttonIndex = findIndex (\<lambda>b. buttonId b = bid) (externalButtons w)
      in if buttonIndex \<noteq> - 1
         then postButtons (w\<lparr>externalButtons := splice1 (nat buttonIndex) (externalButtons w)\<rparr>)
         else w)"

text \<open>
  A history of the window: calls of \<open>createWebviewCellButton\<close>, and disposals of the
  handles those calls returned (the \<open>n\<close>-th handle returned so far; a handle may be
  disposed more than once).
\<close>

datatype button_event =
    Create string nat string "int list" string
  | DisposeHandle nat

fun button_step :: "window \<times> disposable list \<Rightarrow> button_event \<Rightarrow> window \<times> disposable list" where
  "button_step (w, hs) (Create bid cb icon statuses tip) =
     (let (h, w') = createWebviewCellButton bid cb icon statuses tip w in (w', hs @ [h]))"
| "button_step (w, hs) (DisposeHandle n) =
     (if n < length hs then (dispose (hs ! n) w, hs) else (w, hs))"

definition new_window :: window where
  "new_window = \<lparr>externalButtons = [], posted = []\<rparr>"

definition buttons_after :: "button_event list \<Rightarrow> window" where
  "buttons_after evs = fst (foldl button_step (new_window, []) evs)"

section \<open>Submitting code: \<open>submitCode\<close>\<close>

text \<open>
  \<open>submitCode\<close> talks to the notebook, the debugger, the status bar and the webview. Each
  of those calls is an effect; the function is modelled by the list of effects it performs,
  in order, and by how it ends. A cell that the notebook reports is kept as its
  \<open>CellState\<close> (the members of the enum that this file names).
\<close>

datatype CellState = init | executing | finished | error

datatype effect =
    SendKernelTelemetryEvent
  | TraceInfo
  | TraceError
  | SetStatus
  | ShareMessage string
  | EnsureConnectionAndNotebook
  | EnsureDarkSet
  | Show
  | AddSysInfo
  | SetLaunchingFile string
  | StartRunByLine string
  | NotebookExecute
  | StartDebugging
  | SetFileInKernel string
  | SendTelemetryEvent
  | OnSessionStatusChanged
  | ExecuteObservable string
  | FireExecuteEvent string
  | SendCellsToWebView "CellState list"
  | ShowErrorMessage
  | StatusDispose
  | StopDebugging

text \<open>What the observable returned by \<open>executeObservable\<close> delivers to its subscriber.\<close>

datatype emission = Next "CellState list" | Error bool | Complete

text \<open>
  What the surroundings decide. \<open>stripFirstMarker\<close> is the method of \<open>CellMatcher\<close>
  (\<open>../editor-integration/cellMatcher\<close>, not among the sources), taken as a parameter.
  \<open>EmptyFileName\<close> is the constant \<open>Identifiers.EmptyFileName\<close> (\<open>../constants\<close>, not
  among the sources either). \<open>rejects\<close> tells which awaited call fails; \<open>emissions\<close> is
  what the observable sends, an \<open>Error\<close> carrying whether it is a \<open>CancellationError\<close>.
\<close>

record host =
  stripFirstMarker :: "string \<Rightarrow> string"
  EmptyFileName :: string
  notebookAtEntry :: bool
  notebookAfterEnsure :: bool
  perceivedJupyterStartupTelemetryCaptured :: bool
  rejects :: "effect \<Rightarrow> bool"
  emissions :: "emission list"
  stopOnError :: bool

text \<open>
  How a piece of the function ends: normally, with the value of the variable \<open>result\<close>;
  with an exception; or never, suspended at an \<open>await\<close> whose promise stays pending.
\<close>

datatype outcome = Returns bool | Throws | NeverReturns

text \<open>One piece after another: the second runs when the first ended normally.\<close>

fun andThen :: "effect list \<times> outcome \<Rightarrow> effect list \<times> outcome \<Rightarrow> effect list \<times> outcome" where
  "andThen (fx, Returns r) (fx', out) = (fx @ fx', out)"
| "andThen (fx, Throws) next = (fx, Throws)"
| "andThen (fx, NeverReturns) next = (fx, NeverReturns)"

text \<open>Calls that cannot fail, made when the piece before them ended normally.\<close>

fun followedBy :: "effect list \<times> outcome \<Rightarrow> effect list \<Rightarrow> effect list \<times> outcome" where
  "followedBy (fx, Returns r) fx' = (fx @ fx', Returns r)"
| "followedBy (fx, out) fx' = (fx, out)"

text \<open>\<open>try { ... } finally { ... }\<close>, the second piece being the \<open>finally\<close> block.\<close>

fun tryFinally :: "effect list \<times> outcome \<Rightarrow> effect list \<times> outcome \<Rightarrow> effect list \<times> outcome" where
  "tryFinally (fx, NeverReturns) fin = (fx, NeverReturns)"
| "tryFinally (fx, out) (fx', Returns r) = (fx @ fx', out)"
| "tryFinally (fx, out) (fx', out') = (fx @ fx', out')"

text \<open>Awaited calls, one after the other, up to the first that rejects.\<close>

fun await_all :: "(effect \<Rightarrow> bool) \<Rightarrow> effect list \<Rightarrow> effect list \<times> outcome" where
  "await_all rej [] = ([], Returns True)"
| "await_all rej (e # es) =
     (if rej e then ([e], Throws) else andThen ([e], Returns True) (await_all rej es))"

text \<open>
  The three callbacks given to \<open>observable.subscribe\<close>, run over the emissions up to the
  first disposal of the status, which resolves \<open>finishedAddingCode\<close>; the third argument
  is the variable \<open>result\<close>. When the observable never ends,
  \<open>await finishedAddingCode.promise\<close> never returns.
\<close>

fun subscribe :: "bool \<Rightarrow> emission list \<Rightarrow> bool \<Rightarrow> effect list \<times> outcome" where
  "subscribe soe [] res = ([], NeverReturns)"
| "subscribe soe (Next cells # es) res =
     andThen ([SendCellsToWebView cells], Returns True)
       (subscribe soe es (if soe then res \<and> error \<notin> set cells else res))"
| "subscribe soe (Error cancelled # es) res =
     ([TraceError, StatusDispose] @ (if cancelled then [] else [ShowErrorMessage]), Returns res)"
| "subscribe soe (Complete # es) res = ([StatusDispose], Returns res)"

text \<open>A JavaScript string option as a condition: \<open>undefined\<close> and \<open>''\<close> are false.\<close>

fun truthy :: "string option \<Rightarrow> bool" where
  "truthy None = False"
| "truthy (Some x) = (x \<noteq> [])"

text \<open>The \<open>if (debugInfo)\<close> part of the \<open>try\<close> block.\<close>

fun attachDebugger :: "(effect \<Rightarrow> bool) \<Rightarrow> (bool \<times> string option) option \<Rightarrow> effect list \<times> outcome" where
  "attachDebugger rej None = ([], Returns True)"
| "attachDebugger rej (Some (runByLine, hashFileName)) =
     (if runByLine \<and> truthy hashFileName then await_all rej [StartRunByLine (the hashFileName)]
      else if \<not> runByLine then await_all rej [NotebookExecute, StartDebugging]
      else ([], Throws))"

text \<open>
  \<open>submitCode(code, file, line, id, data, debugInfo, cancelToken)\<close>; \<open>line\<close>, \<open>data\<close>
  and \<open>cancelToken\<close> are only handed on to the notebook. \<open>this._notebook\<close> is read at
  entry (for the stop watch) and again after \<open>ensureConnectionAndNotebook\<close>, which may
  have set it.
\<close>

definition submitCode ::
  "host \<Rightarrow> string \<Rightarrow> string \<Rightarrow> string option \<Rightarrow> (bool \<times> string option) option \<Rightarrow>
     effect list \<times> outcome" where
  "submitCode h code file ident debugInfo =
     (let stopWatch = (notebookAtEntry h \<and> \<not> perceivedJupyterStartupTelemetryCaptured h);
          notebook = (if rejects h EnsureConnectionAndNotebook then notebookAtEntry h
                      else notebookAfterEnsure h)
      in andThen ([SendKernelTelemetryEvent, TraceInfo], Returns True)
          (if length (stripFirstMarker h code) = 0 then ([], Returns True)
           else
             andThen ([SetStatus] @ (if truthy ident then [] else [ShareMessage code]), Returns True)
              (tryFinally
                (andThen
                  (await_all (rejects h)
                     ([EnsureConnectionAndNotebook, EnsureDarkSet, Show] @
                      (if file \<noteq> EmptyFileName h then [AddSysInfo] else [])))
                  (if notebook
                   then andThen (await_all (rejects h) [SetLaunchingFile file])
                         (andThen (attachDebugger (rejects h) debugInfo)
                           (andThen (await_all (rejects h) [SetFileInKernel file])
                             (andThen
                               ((if stopWatch then [SendTelemetryEvent, OnSessionStatusChanged]
                                 else []) @ [ExecuteObservable code, FireExecuteEvent code],
                                Returns True)
                               (followedBy (subscribe (stopOnError h) (emissions h) True)
                                  [TraceInfo]))))
                   else ([], Returns True)))
                (andThen ([StatusDispose], Returns True)
                   (if debugInfo \<noteq> None \<and> notebook then await_all (rejects h) [StopDebugging]
                    else ([], Returns True))))))"

section \<open>The chain of pending updates: \<open>chainWithPendingUpdates\<close>\<close>

text \<open>
  The keys of the \<open>WeakMap\<close> are objects: a \<open>NotebookDocument\<close>, or a \<open>NotebookCell\<close>,
  which carries its document in the property \<open>notebook\<close>. Objects are told apart by
  numbers; \<open>Cell d c\<close> is the cell \<open>c\<close> whose \<open>notebook\<close> is the document \<open>d\<close>.
\<close>

datatype key = Document nat | Cell nat nat

text \<open>\<open>'notebook' in documentOrCell ? documentOrCell.notebook : documentOrCell\<close>\<close>

fun notebook :: "key \<Rightarrow> nat" where
  "notebook (Document d) = d"
| "notebook (Cell d c) = d"

text \<open>
  The callback \<open>update\<close> is given by what the code observes of it: whether it returns
  nothing, returns a promise, or throws, and the \<open>size\<close> of the \<open>WorkspaceEdit\<close> once it
  has run.
\<close>

datatype callback_result = ReturnsVoid | ReturnsPromise | ThrowsError

record update_callback =
  result :: callback_result
  edit_size :: nat

datatype reason = TypeError | HostError string

datatype 'a promise = Pending | Fulfilled 'a | Rejected reason

text \<open>
  One call that got as far as building its chain link. \<open>pendingUpdates\<close> is the promise the
  link is chained on: \<open>None\<close> is \<open>Promise.resolve()\<close>, \<open>Some p\<close> the \<open>aggregatedPromise\<close>
  of the operation \<open>p\<close>. \<open>phase\<close> follows the \<open>finally\<close> callback: not yet started; suspended
  at \<open>await result\<close>; suspended at \<open>await workspace.applyEdit(edit)\<close>; or done, which is when
  \<open>aggregatedPromise\<close> resolves (\<open>.catch(noop)\<close> turns a rejection into a resolution).
  \<open>deferred\<close> is the state of \<open>deferred.promise\<close>, the promise handed to the caller;
  \<open>createDeferred\<close> (\<open>common/utils/async\<close>, not among the sources) is taken to be a
  promise together with its \<open>resolve\<close> and \<open>reject\<close>.
\<close>

datatype phase = Queued | AwaitingUpdate | Applying | Settled

record operation =
  documentOrCell :: key
  update :: update_callback
  pendingUpdates :: "nat option"
  phase :: phase
  deferred :: "bool promise"

text \<open>
  The module's state and the part of the host that it reads: the map \<open>pendingCellUpdates\<close>
  (a promise in it is named by the operation whose \<open>aggregatedPromise\<close> it is), the
  operations created so far, the queue of promise reactions that are ready to run, and which
  documents are closed. \<open>applyEditThrows\<close> is the host's answer to a call of
  \<open>workspace.applyEdit\<close> before that call is made: whether, for the edit of that operation,
  it throws instead of returning its thenable. Two logs record what the code did: the calls
  of \<open>update\<close> and the calls of \<open>workspace.applyEdit\<close>, each by operation, oldest first.
\<close>

record state =
  pendingCellUpdates :: "key \<Rightarrow> nat option"
  operations :: "operation list"
  microtasks :: "nat list"
  isClosed :: "nat \<Rightarrow> bool"
  applyEditThrows :: "nat \<Rightarrow> bool"
  updateCalls :: "nat list"
  applyEditCalls :: "nat list"

abbreviation count :: "state \<Rightarrow> nat" where
  "count s \<equiv> length (operations s)"

abbreviation target :: "state \<Rightarrow> nat \<Rightarrow> key" where
  "target s j \<equiv> documentOrCell (operations s ! j)"

abbreviation chained_on :: "state \<Rightarrow> nat \<Rightarrow> nat option" where
  "chained_on s j \<equiv> pendingUpdates (operations s ! j)"

abbreviation phase_of :: "state \<Rightarrow> nat \<Rightarrow> phase" where
  "phase_of s j \<equiv> phase (operations s ! j)"

abbreviation deferred_of :: "state \<Rightarrow> nat \<Rightarrow> bool promise" where
  "deferred_of s j \<equiv> deferred (operations s ! j)"

abbreviation update_of :: "state \<Rightarrow> nat \<Rightarrow> update_callback" where
  "update_of s j \<equiv> update (operations s ! j)"

text \<open>What the \<open>async\<close> function hands back: its promise follows one of these.\<close>

datatype returned = ReturnTrue | ReturnDeferred nat | ThrowTypeError

definition settled :: "state \<Rightarrow> nat \<Rightarrow> bool" where
  "settled s p = (p < count s \<and> phase_of s p = Settled)"

text \<open>
  The lines from \<open>createDeferred\<close> to \<open>pendingCellUpdates.set\<close>: a new operation chained
  on \<open>pending\<close>. \<open>.finally\<close> on a promise that is already settled queues its reaction at
  once; on a pending one the reaction waits for it.
\<close>

definition enqueue :: "key \<Rightarrow> update_callback \<Rightarrow> nat option \<Rightarrow> state \<Rightarrow> state" where
  "enqueue docOrCell upd pending s =
     s\<lparr>operations := operations s @
          [\<lparr>documentOrCell = docOrCell, update = upd, pendingUpdates = pending,
            phase = Queued, deferred = Pending\<rparr>],
       microtasks :=
          (if (case pending of None \<Rightarrow> True | Some p \<Rightarrow> settled s p)
           then microtasks s @ [count s] else microtasks s),
       pendingCellUpdates := (pendingCellUpdates s)(docOrCell \<mapsto> count s)\<rparr>"

text \<open>
  \<open>pendingCellUpdates.get(documentOrCell)!\<close> is \<open>undefined\<close> when the key has no entry, and
  \<open>undefined.finally\<close> throws a \<open>TypeError\<close>, which rejects the promise of the \<open>async\<close>
  function.
\<close>

definition chainWithPendingUpdates :: "key \<Rightarrow> update_callback \<Rightarrow> state \<Rightarrow> returned \<times> state" where
  "chainWithPendingUpdates docOrCell upd s =
     (if isClosed s (notebook docOrCell) then (ReturnTrue, s)
      else
        case (if pendingCellUpdates s (Document (notebook docOrCell)) \<noteq> None
              then (case pendingCellUpdates s docOrCell of
                      None \<Rightarrow> Inl TypeError
                    | Some p \<Rightarrow> Inr (Some p))
              else Inr None)
        of Inl ex \<Rightarrow> (ThrowTypeError, s)
         | Inr pending \<Rightarrow> (ReturnDeferred (count s), enqueue docOrCell upd pending s))"

text \<open>The promise the caller holds, read in a later state.\<close>

fun promise_of :: "state \<Rightarrow> returned \<Rightarrow> bool promise" where
  "promise_of s ReturnTrue = Fulfilled True"
| "promise_of s (ReturnDeferred n) = deferred_of s n"
| "promise_of s ThrowTypeError = Rejected TypeError"

definition set_phase :: "nat \<Rightarrow> phase \<Rightarrow> state \<Rightarrow> state" where
  "set_phase i ph s = s\<lparr>operations := (operations s)[i := (operations s ! i)\<lparr>phase := ph\<rparr>]\<rparr>"

text \<open>\<open>deferred.resolve(result)\<close> and \<open>deferred.reject(ex)\<close> of the operation \<open>i\<close>.\<close>

definition settle_deferred :: "nat \<Rightarrow> reason + bool \<Rightarrow> state \<Rightarrow> state" where
  "settle_deferred i r s =
     s\<lparr>operations := (operations s)[i := (operations s ! i)
         \<lparr>deferred := (case r of Inl ex \<Rightarrow> Rejected ex | Inr b \<Rightarrow> Fulfilled b)\<rparr>]\<rparr>"

text \<open>
  \<open>aggregatedPromise\<close> of the operation \<open>i\<close> resolves: the \<open>finally\<close> callbacks registered
  on it become ready, in the order they were registered.
\<close>

definition finish :: "nat \<Rightarrow> state \<Rightarrow> state" where
  "finish i s =
     (set_phase i Settled s)\<lparr>microtasks := microtasks s @
          filter (\<lambda>j. chained_on s j = Some i) [0..<count s]\<rparr>"

text \<open>
  \<open>workspace.applyEdit(edit)\<close> returned its thenable, with the two handlers that settle
  \<open>deferred\<close> put on it by \<open>.then\<close>: the callback is suspended at \<open>await\<close> until the host
  settles the thenable.
\<close>

definition awaitApplyEdit :: "nat \<Rightarrow> state \<Rightarrow> state" where
  "awaitApplyEdit i s = (set_phase i Applying s)\<lparr>applyEditCalls := applyEditCalls s @ [i]\<rparr>"

text \<open>
  \<open>workspace.applyEdit(edit)\<close> threw: there is no thenable, \<open>.then\<close> is not reached and no
  handler is installed. The \<open>async\<close> callback rejects, \<open>.catch(noop)\<close> swallows the rejection
  and \<open>aggregatedPromise\<close> resolves; \<open>deferred\<close> is left as it is.
\<close>

definition throwAtApplyEdit :: "nat \<Rightarrow> state \<Rightarrow> state" where
  "throwAtApplyEdit i s = finish i (s\<lparr>applyEditCalls := applyEditCalls s @ [i]\<rparr>)"

text \<open>\<open>await workspace.applyEdit(edit).then(...)\<close>: the call is made.\<close>

definition callApplyEdit :: "nat \<Rightarrow> state \<Rightarrow> state" where
  "callApplyEdit i s =
     (if applyEditThrows s i then throwAtApplyEdit i s else awaitApplyEdit i s)"

text \<open>The \<open>finally\<close> callback from \<open>if (edit.size === 0)\<close> on.\<close>

definition afterUpdate :: "nat \<Rightarrow> state \<Rightarrow> state" where
  "afterUpdate i s =
     (if edit_size (update_of s i) = 0 then finish i s else callApplyEdit i s)"

text \<open>\<open>const result = update(edit)\<close>: the callback of the operation is called.\<close>

definition callUpdate :: "nat \<Rightarrow> state \<Rightarrow> state" where
  "callUpdate i s = s\<lparr>updateCalls := updateCalls s @ [i]\<rparr>"

text \<open>
  The \<open>finally\<close> callback from its start. When \<open>update\<close> throws, or the promise it
  returned rejects, the callback ends there; \<open>.catch(noop)\<close> swallows the failure.
\<close>

definition runCallback :: "nat \<Rightarrow> state \<Rightarrow> state" where
  "runCallback i s =
     (case result (update_of s i) of
        ThrowsError \<Rightarrow> finish i (callUpdate i s)
      | ReturnsPromise \<Rightarrow> set_phase i AwaitingUpdate (callUpdate i s)
      | ReturnsVoid \<Rightarrow> afterUpdate i (callUpdate i s))"

text \<open>
  What can happen, one at a time (the event loop is single-threaded): a call of
  \<open>chainWithPendingUpdates\<close>; the event loop running the next ready reaction; the promise
  returned by an \<open>update\<close> callback settling (fulfilled or not); the host settling an
  \<open>applyEdit\<close> with a result or a failure; the host closing a document; the host getting
  into a condition in which the call of \<open>applyEdit\<close> for an operation, when it comes, throws.
  An event that the state does not allow changes nothing.

  One step takes a callback as far as its next \<open>await\<close> on the host or on \<open>update\<close>, and
  when a callback ends, the reactions waiting on its \<open>aggregatedPromise\<close> become ready in
  the same step. The engine takes further turns of the microtask queue for the continuation
  after an \<open>await\<close> and for the resolution of \<open>aggregatedPromise\<close> through \<open>finally\<close> and
  \<open>catch\<close>; reactions of other chains that are ready can run in between. The order within
  one chain is not affected; the relative order of callbacks of different chains that are
  ready in the same turn can differ from the engine's.
\<close>

datatype event =
    Call key update_callback
  | Microtask
  | UpdateSettles nat bool
  | ApplySettles nat "reason + bool"
  | Close nat
  | HostThrows nat

fun step :: "state \<Rightarrow> event \<Rightarrow> state" where
  "step s (Call k u) = snd (chainWithPendingUpdates k u s)"
| "step s Microtask =
     (case microtasks s of
        [] \<Rightarrow> s
      | i # rest \<Rightarrow> runCallback i (s\<lparr>microtasks := rest\<rparr>))"
| "step s (UpdateSettles i ok) =
     (if i < count s \<and> phase_of s i = AwaitingUpdate
      then (if ok then afterUpdate i s else finish i s)
      else s)"
| "step s (ApplySettles i r) =
     (if i < count s \<and> phase_of s i = Applying
      then finish i (settle_deferred i r s)
      else s)"
| "step s (Close d) = s\<lparr>isClosed := (isClosed s)(d := True)\<rparr>"
| "step s (HostThrows i) = s\<lparr>applyEditThrows := (applyEditThrows s)(i := True)\<rparr>"

text \<open>
  The module as loaded: \<open>new WeakMap()\<close>, nothing created, every document open, and a
  host that takes every call of \<open>applyEdit\<close>.
\<close>

definition loaded :: state where
  "loaded = \<lparr>pendingCellUpdates = (\<lambda>k. None), operations = [], microtasks = [],
             isClosed = (\<lambda>d. False), applyEditThrows = (\<lambda>i. False),
             updateCalls = [], applyEditCalls = []\<rparr>"

definition run :: "event list \<Rightarrow> state" where
  "run evs = foldl step loaded evs"

text \<open>
  \<open>clearPendingChainedUpdatesForTests\<close>; the argument is \<open>window.activeNotebookEditor\<close>,
  as its document and the cells \<open>getCells()\<close> returns, when there is one.
\<close>

definition clearPendingChainedUpdatesForTests :: "(nat \<times> nat list) option \<Rightarrow> state \<Rightarrow> state" where
  "clearPendingChainedUpdatesForTests editor s =
     (case editor of
        None \<Rightarrow> s
      | Some (document, cells) \<Rightarrow>
          s\<lparr>pendingCellUpdates :=
              (\<lambda>k. if k = Document document \<or> k \<in> Cell document ` set cells then None
                    else pendingCellUpdates s k)\<rparr>)"

section \<open>Invariants of the chain\<close>

text \<open>The queue holds, once each, exactly the operations that have not started and whose
  predecessor in the chain, if any, has settled.\<close>

definition inv_queue :: "state \<Rightarrow> bool" where
  "inv_queue s \<longleftrightarrow>
     distinct (microtasks s) \<and>
     (\<forall>j. j \<in> set (microtasks s) \<longleftrightarrow>
        j < count s \<and> phase_of s j = Queued \<and>
        (\<forall>p. chained_on s j = Some p \<longrightarrow> settled s p))"

text \<open>An operation is chained on the latest earlier operation with its key, and only when
  the document of its key had an entry, so an operation on that document came before.\<close>

definition inv_pred :: "state \<Rightarrow> bool" where
  "inv_pred s \<longleftrightarrow>
     (\<forall>j p. j < count s \<and> chained_on s j = Some p \<longrightarrow>
        p < j \<and> target s p = target s j \<and>
        (\<forall>i. p < i \<and> i < j \<longrightarrow> target s i \<noteq> target s j) \<and>
        (\<exists>m<j. target s m = Document (notebook (target s j))))"

text \<open>A chained operation starts only after the operation it is chained on has settled.\<close>

definition inv_chain :: "state \<Rightarrow> bool" where
  "inv_chain s \<longleftrightarrow>
     (\<forall>j p. j < count s \<and> chained_on s j = Some p \<and> phase_of s j \<noteq> Queued \<longrightarrow>
        phase_of s p = Settled)"

text \<open>An operation chained on \<open>Promise.resolve()\<close> was called when its document had no entry.\<close>

definition inv_none :: "state \<Rightarrow> bool" where
  "inv_none s \<longleftrightarrow>
     (\<forall>j i. j < count s \<and> chained_on s j = None \<and> i < j \<longrightarrow>
        target s i \<noteq> Document (notebook (target s j)))"

text \<open>An entry of the map names the latest operation called with that key, and every key
  that an operation was called with has an entry.\<close>

definition inv_map :: "state \<Rightarrow> bool" where
  "inv_map s \<longleftrightarrow>
     (\<forall>k i. pendingCellUpdates s k = Some i \<longrightarrow>
        i < count s \<and> target s i = k \<and> (\<forall>j. j < count s \<and> target s j = k \<longrightarrow> j \<le> i)) \<and>
     (\<forall>j. j < count s \<longrightarrow> pendingCellUpdates s (target s j) \<noteq> None)"

text \<open>Reactions on \<open>Promise.resolve()\<close> wait in the queue in the order of their calls.\<close>

definition inv_sorted :: "state \<Rightarrow> bool" where
  "inv_sorted s \<longleftrightarrow> sorted (filter (\<lambda>j. chained_on s j = None) (microtasks s))"

text \<open>Operations chained on \<open>Promise.resolve()\<close> start in the order of their calls.\<close>

definition inv_first :: "state \<Rightarrow> bool" where
  "inv_first s \<longleftrightarrow>
     (\<forall>i j. i < j \<and> j < count s \<and> chained_on s i = None \<and> chained_on s j = None \<and>
        phase_of s j \<noteq> Queued \<longrightarrow> phase_of s i \<noteq> Queued)"

text \<open>The log of \<open>update\<close> calls holds the operations that have started; those of one key
  are in it in the order of their calls.\<close>

definition inv_log :: "state \<Rightarrow> bool" where
  "inv_log s \<longleftrightarrow>
     set (updateCalls s) = {j. j < count s \<and> phase_of s j \<noteq> Queued} \<and>
     (\<forall>k. sorted_wrt (<) (filter (\<lambda>j. target s j = k) (updateCalls s)))"

text \<open>\<open>applyEdit\<close> is called only for an operation whose edit is not empty, and an
  operation suspended at \<open>applyEdit\<close> is in the log of those calls.\<close>

definition inv_apply :: "state \<Rightarrow> bool" where
  "inv_apply s \<longleftrightarrow>
     (\<forall>j. j \<in> set (applyEditCalls s) \<longrightarrow> j < count s \<and> edit_size (update_of s j) \<noteq> 0) \<and>
     (\<forall>j. j < count s \<and> phase_of s j = Applying \<longrightarrow> j \<in> set (applyEditCalls s))"

text \<open>\<open>deferred\<close> is settled only by the two handlers given to \<open>applyEdit(edit).then\<close>.\<close>

definition inv_deferred :: "state \<Rightarrow> bool" where
  "inv_deferred s \<longleftrightarrow>
     (\<forall>j. j < count s \<and> deferred_of s j \<noteq> Pending \<longrightarrow>
        phase_of s j = Settled \<and> j \<in> set (applyEditCalls s))"

text \<open>Operations on one key start in the order of their calls.\<close>

definition in_order :: "state \<Rightarrow> bool" where
  "in_order s \<longleftrightarrow>
     (\<forall>i j. i < j \<and> j < count s \<and> target s i = target s j \<and> phase_of s j \<noteq> Queued \<longrightarrow>
        phase_of s i \<noteq> Queued)"

text \<open>
  While the callback of the operation \<open>i\<close> is running or suspended, the operation is
  neither waiting in the queue nor settled.
\<close>

definition queue_except :: "nat \<Rightarrow> state \<Rightarrow> bool" where
  "queue_except i s \<longleftrightarrow>
     distinct (microtasks s) \<and> i \<notin> set (microtasks s) \<and>
     (\<forall>j. j \<noteq> i \<longrightarrow> (j \<in> set (microtasks s) \<longleftrightarrow>
        j < count s \<and> phase_of s j = Queued \<and>
        (\<forall>p. chained_on s j = Some p \<longrightarrow> settled s p)))"

text \<open>The log once the callback of the operation \<open>i\<close> has been entered.\<close>

definition log_except :: "nat \<Rightarrow> state \<Rightarrow> bool" where
  "log_except i s \<longleftrightarrow>
     set (updateCalls s) = insert i {j. j < count s \<and> phase_of s j \<noteq> Queued} \<and>
     (\<forall>k. sorted_wrt (<) (filter (\<lambda>j. target s j = k) (updateCalls s)))"

text \<open>What holds in every state that the module can reach.\<close>

definition invariant_core :: "state \<Rightarrow> bool" where
  "invariant_core s \<longleftrightarrow>
     inv_map s \<and> inv_pred s \<and> inv_none s \<and> inv_queue s \<and> inv_chain s \<and>
     inv_sorted s \<and> inv_first s \<and> inv_log s \<and> inv_apply s"

definition invariant :: "state \<Rightarrow> bool" where
  "invariant s \<longleftrightarrow> invariant_core s \<and> inv_deferred s"

text \<open>What holds while the callback of the operation \<open>i\<close> is being run.\<close>

definition running :: "nat \<Rightarrow> state \<Rightarrow> bool" where
  "running i s \<longleftrightarrow>
     i < count s \<and> phase_of s i \<noteq> Settled \<and>
     inv_map s \<and> inv_pred s \<and> inv_none s \<and> queue_except i s \<and> inv_chain s \<and>
     (\<forall>p. chained_on s i = Some p \<longrightarrow> phase_of s p = Settled) \<and>
     inv_sorted s \<and> inv_first s \<and>
     (phase_of s i = Queued \<longrightarrow>
        (\<forall>i'<i. chained_on s i' = None \<and> chained_on s i = None \<longrightarrow> phase_of s i' \<noteq> Queued)) \<and>
     log_except i s \<and> inv_apply s"

section \<open>Settling what is pending\<close>

text \<open>How many steps an operation is away from having settled, at most.\<close>

fun weight :: "phase \<Rightarrow> nat" where
  "weight Queued = 3"
| "weight AwaitingUpdate = 2"
| "weight Applying = 1"
| "weight Settled = 0"

definition work :: "state \<Rightarrow> nat" where
  "work s = sum_list (map (\<lambda>op. weight (phase op)) (operations s))"

text \<open>
  Letting everything that is pending settle: the event loop runs the ready reactions; when
  none is ready, the promise of the first suspended callback settles, an \<open>update\<close> promise
  as \<open>fulfils\<close> says and an \<open>applyEdit\<close> as \<open>answer\<close> says.
\<close>

definition next_event :: "(nat \<Rightarrow> bool) \<Rightarrow> (nat \<Rightarrow> reason + bool) \<Rightarrow> state \<Rightarrow> event option" where
  "next_event fulfils answer s =
     (if microtasks s \<noteq> [] then Some Microtask
      else case find (\<lambda>j. phase_of s j = AwaitingUpdate \<or> phase_of s j = Applying) [0..<count s] of
             None \<Rightarrow> None
           | Some j \<Rightarrow> Some (if phase_of s j = AwaitingUpdate then UpdateSettles j (fulfils j)
                             else ApplySettles j (answer j)))"

fun settle_all :: "(nat \<Rightarrow> bool) \<Rightarrow> (nat \<Rightarrow> reason + bool) \<Rightarrow> nat \<Rightarrow> state \<Rightarrow> state" where
  "settle_all fulfils answer 0 s = s"
| "settle_all fulfils answer (Suc n) s =
     (case next_event fulfils answer s of
        None \<Rightarrow> s
      | Some ev \<Rightarrow> settle_all fulfils answer n (step s ev))"

section \<open>Properties of the external buttons\<close>

lemma findIndex_none: "findIndex p xs = - 1 \<longleftrightarrow> (\<forall>x \<in> set xs. \<not> p x)"
proof (induction xs)
  case Nil
  show ?case by simp
next
  case (Cons x xs)
  have nonneg: "\<And>ys. findIndex p ys \<ge> - 1"
  proof -
    fix ys show "findIndex p ys \<ge> - 1"
      by (induction ys) (auto simp: Let_def)
  qed
  have "findIndex p xs + 1 \<noteq> - 1"
    using nonneg [of xs] by arith
  with Cons show ?case by (auto simp: Let_def)
qed

lemma findIndex_found:
  "findIndex p xs \<noteq> - 1 \<Longrightarrow>
     0 \<le> findIndex p xs \<and> nat (findIndex p xs) < length xs \<and> p (xs ! nat (findIndex p xs)) \<and>
     (\<forall>j < nat (findIndex p xs). \<not> p (xs ! j))"
proof (induction xs)
  case Nil
  then show ?case by simp
next
  case (Cons x xs)
  show ?case
  proof (cases "p x")
    case True
    then show ?thesis by simp
  next
    case False
    with Cons.prems have ne: "findIndex p xs \<noteq> - 1"
      by (auto simp: Let_def split: if_splits)
    from Cons.IH [OF ne] have ih:
      "0 \<le> findIndex p xs" "nat (findIndex p xs) < length xs"
      "p (xs ! nat (findIndex p xs))" "\<forall>j < nat (findIndex p xs). \<not> p (xs ! j)"
      by auto
    have eq: "findIndex p (x # xs) = findIndex p xs + 1"
      using False ne by (simp add: Let_def)
    have n: "nat (findIndex p xs + 1) = Suc (nat (findIndex p xs))"
      using ih(1) by simp
    show ?thesis
      unfolding eq n using ih False
      by (auto simp: nth_Cons split: nat.splits)
  qed
qed

lemma splice1_distinct_filter:
  assumes "distinct (map f xs)" and "i < length xs"
  shows "splice1 i xs = filter (\<lambda>b. f b \<noteq> f (xs ! i)) xs"
  using assms
proof (induction xs arbitrary: i)
  case Nil
  then show ?case by simp
next
  case (Cons x xs)
  show ?case
  proof (cases i)
    case 0
    have "filter (\<lambda>b. f b \<noteq> f x) xs = xs"
      using Cons.prems(1) by (auto intro!: filter_True simp: image_iff)
    with 0 show ?thesis by (simp add: splice1_def)
  next
    case (Suc k)
    with Cons.prems have k: "k < length xs" and d: "distinct (map f xs)" by auto
    have "f x \<noteq> f (xs ! k)"
      using Cons.prems(1) k by (auto simp: image_iff)
    with Cons.IH [OF d k] Suc show ?thesis
      by (simp add: splice1_def)
  qed
qed

lemma dispose_filter:
  assumes "distinct (map buttonId (externalButtons w))"
  shows "externalButtons (dispose (Disposable bid) w) =
           filter (\<lambda>b. buttonId b \<noteq> bid) (externalButtons w)"
proof (cases "findIndex (\<lambda>b. buttonId b = bid) (externalButtons w) = - 1")
  case True
  then have "\<forall>b \<in> set (externalButtons w). buttonId b \<noteq> bid"
    by (simp add: findIndex_none)
  then have "filter (\<lambda>b. buttonId b \<noteq> bid) (externalButtons w) = externalButtons w"
    by (auto intro!: filter_True)
  with True show ?thesis by simp
next
  case False
  let ?i = "nat (findIndex (\<lambda>b. buttonId b = bid) (externalButtons w))"
  from findIndex_found [OF False]
  have i: "?i < length (externalButtons w)" and at: "buttonId (externalButtons w ! ?i) = bid"
    by auto
  from splice1_distinct_filter [OF assms i] at False show ?thesis
    by (simp add: postButtons_def)
qed

lemma create_distinct:
  assumes "distinct (map buttonId (externalButtons w))"
  shows "distinct (map buttonId (externalButtons (snd (createWebviewCellButton bid cb ic st tt w))))"
proof (cases "findIndex (\<lambda>b. buttonId b = bid) (externalButtons w) = - 1")
  case True
  then have "bid \<notin> buttonId ` set (externalButtons w)"
    by (auto simp: findIndex_none)
  with True assms show ?thesis
    by (simp add: createWebviewCellButton_def postButtons_def)
next
  case False
  with assms show ?thesis by (simp add: createWebviewCellButton_def)
qed

lemma dispose_distinct:
  assumes "distinct (map buttonId (externalButtons w))"
  shows "distinct (map buttonId (externalButtons (dispose h w)))"
proof (cases h)
  case (Disposable bid)
  show ?thesis
    unfolding Disposable dispose_filter [OF assms]
    using assms by (simp add: distinct_map_filter)
qed

lemma button_step_distinct:
  assumes "distinct (map buttonId (externalButtons w))"
  shows "distinct (map buttonId (externalButtons (fst (button_step (w, hs) ev))))"
proof (cases ev)
  case (Create bid cb ic sts tt)
  with create_distinct [OF assms, of bid cb ic sts tt] show ?thesis
    by (simp add: split_def Let_def)
next
  case (DisposeHandle n)
  with dispose_distinct [OF assms] assms show ?thesis by simp
qed

lemma foldl_button_step_distinct:
  "distinct (map buttonId (externalButtons (fst st))) \<Longrightarrow>
   distinct (map buttonId (externalButtons (fst (foldl button_step st evs))))"
proof (induction evs arbitrary: st)
  case Nil
  then show ?case by simp
next
  case (Cons ev evs)
  obtain w hs where st: "st = (w, hs)" by (cases st)
  from Cons.prems st have "distinct (map buttonId (externalButtons (fst (button_step st ev))))"
    using button_step_distinct [of w hs ev] by simp
  from Cons.IH [OF this] show ?case by simp
qed

lemma buttons_after_distinct: "distinct (map buttonId (externalButtons (buttons_after evs)))"
  unfolding buttons_after_def
  by (rule foldl_button_step_distinct) (simp add: new_window_def)

lemma distinct_filter_le_1:
  "distinct (map f xs) \<Longrightarrow> length (filter (\<lambda>b. f b = a) xs) \<le> Suc 0"
proof (induction xs)
  case Nil
  then show ?case by simp
next
  case (Cons x xs)
  show ?case
  proof (cases "f x = a")
    case True
    with Cons.prems have "\<forall>b \<in> set xs. f b \<noteq> a" by (auto simp: image_iff)
    then have "filter (\<lambda>b. f b = a) xs = []" by (auto simp: filter_empty_conv)
    with True show ?thesis by simp
  next
    case False
    with Cons show ?thesis by simp
  qed
qed

text \<open>
  Claim C7. After any sequence of \<open>createWebviewCellButton\<close> calls and disposals of the
  handles they returned, no two entries of \<open>externalButtons\<close> have the same \<open>buttonId\<close>.
  A call whose \<open>buttonId\<close> is already present changes nothing and returns a handle for
  that \<open>buttonId\<close>; disposing a handle leaves exactly the entries with another \<open>buttonId\<close>,
  in their order, so it removes at most one entry.
\<close>

theorem externalButtons_one_per_buttonId:
  "distinct (map buttonId (externalButtons (buttons_after evs))) \<and>
   (bid \<in> buttonId ` set (externalButtons (buttons_after evs)) \<longrightarrow>
      createWebviewCellButton bid cb icon statuses tip (buttons_after evs) =
        (Disposable bid, buttons_after evs)) \<and>
   externalButtons (dispose (Disposable bid) (buttons_after evs)) =
      filter (\<lambda>b. buttonId b \<noteq> bid) (externalButtons (buttons_after evs)) \<and>
   length (externalButtons (buttons_after evs)) \<le>
      Suc (length (externalButtons (dispose (Disposable bid) (buttons_after evs))))"
proof -
  let ?w = "buttons_after evs"
  have d: "distinct (map buttonId (externalButtons ?w))"
    by (rule buttons_after_distinct)
  have present: "bid \<in> buttonId ` set (externalButtons ?w) \<longrightarrow>
      createWebviewCellButton bid cb icon statuses tip ?w = (Disposable bid, ?w)"
  proof
    assume "bid \<in> buttonId ` set (externalButtons ?w)"
    then have "findIndex (\<lambda>b. buttonId b = bid) (externalButtons ?w) \<noteq> - 1"
      by (auto simp: findIndex_none)
    then show "createWebviewCellButton bid cb icon statuses tip ?w = (Disposable bid, ?w)"
      by (simp add: createWebviewCellButton_def)
  qed
  have f: "externalButtons (dispose (Disposable bid) ?w) =
      filter (\<lambda>b. buttonId b \<noteq> bid) (externalButtons ?w)"
    by (rule dispose_filter [OF d])
  have one: "length (filter (\<lambda>b. buttonId b = bid) (externalButtons ?w)) \<le> Suc 0"
    by (rule distinct_filter_le_1 [OF d])
  have "length (externalButtons ?w) =
      length (filter (\<lambda>b. buttonId b = bid) (externalButtons ?w)) +
      length (filter (\<lambda>b. buttonId b \<noteq> bid) (externalButtons ?w))"
    using sum_length_filter_compl [of "\<lambda>b. buttonId b = bid" "externalButtons ?w"] by simp
  with one f have len: "length (externalButtons ?w) \<le>
      Suc (length (externalButtons (dispose (Disposable bid) ?w)))"
    by simp
  from d present f len show ?thesis by blast
qed

theorem externalButtons_one_per_buttonId_witness:
  "externalButtons (buttons_after
      [Create ''a'' 0 ''play'' [2] ''Run'', Create ''b'' 1 ''stop'' [1] ''Stop'',
       Create ''a'' 2 ''other'' [] ''Again'']) =
     [\<lparr>buttonId = ''a'', callback = Some 0, codicon = ''play'', statusToEnable = [2],
        tooltip = ''Run'', running = False\<rparr>,
      \<lparr>buttonId = ''b'', callback = Some 1, codicon = ''stop'', statusToEnable = [1],
        tooltip = ''Stop'', running = False\<rparr>] \<and>
   externalButtons (buttons_after
      [Create ''a'' 0 ''play'' [2] ''Run'', Create ''b'' 1 ''stop'' [1] ''Stop'',
       Create ''a'' 2 ''other'' [] ''Again'', DisposeHandle 2]) =
     [\<lparr>buttonId = ''b'', callback = Some 1, codicon = ''stop'', statusToEnable = [1],
        tooltip = ''Stop'', running = False\<rparr>] \<and>
   ''a'' \<in> buttonId ` set (externalButtons (buttons_after
      [Create ''a'' 0 ''play'' [2] ''Run'', Create ''b'' 1 ''stop'' [1] ''Stop''])) \<and>
   createWebviewCellButton ''a'' 2 ''other'' [] ''Again'' (buttons_after
      [Create ''a'' 0 ''play'' [2] ''Run'', Create ''b'' 1 ''stop'' [1] ''Stop'']) =
     (Disposable ''a'', buttons_after
      [Create ''a'' 0 ''play'' [2] ''Run'', Create ''b'' 1 ''stop'' [1] ''Stop''])"
  using externalButtons_one_per_buttonId
    [of "[Create ''a'' 0 ''play'' [2] ''Run'', Create ''b'' 1 ''stop'' [1] ''Stop'']"
        "''a''" 2 "''other''" "[]" "''Again''"]
  by (simp add: buttons_after_def new_window_def createWebviewCellButton_def postButtons_def
      splice1_def Let_def)

section \<open>Properties of \<open>submitCode\<close>\<close>

text \<open>
  Claim C8. When nothing is left of the code after stripping the first cell marker,
  \<open>submitCode\<close> returns \<open>true\<close> after the telemetry event and the trace line only: it runs
  nothing on the notebook, does not fire \<open>onExecutedCode\<close>, and sends no cell to the webview
  (neither the cells of an execution nor the system information cell).
\<close>

theorem submitCode_empty:
  "length (stripFirstMarker h code) = 0 \<Longrightarrow>
     submitCode h code file ident debugInfo = ([SendKernelTelemetryEvent, TraceInfo], Returns True) \<and>
     NotebookExecute \<notin> set (fst (submitCode h code file ident debugInfo)) \<and>
     ExecuteObservable code \<notin> set (fst (submitCode h code file ident debugInfo)) \<and>
     FireExecuteEvent code \<notin> set (fst (submitCode h code file ident debugInfo)) \<and>
     (\<forall>cells. SendCellsToWebView cells \<notin> set (fst (submitCode h code file ident debugInfo))) \<and>
     AddSysInfo \<notin> set (fst (submitCode h code file ident debugInfo))"
  by (simp add: submitCode_def Let_def)

theorem submitCode_empty_witness:
  "length (stripFirstMarker
      \<lparr>stripFirstMarker = (\<lambda>c. if take 4 c = ''# %%'' then drop 4 c else c),
        EmptyFileName = ''empty'',
        notebookAtEntry = True, notebookAfterEnsure = True,
        perceivedJupyterStartupTelemetryCaptured = False, rejects = (\<lambda>e. False),
        emissions = [Next [init], Next [finished], Complete], stopOnError = True\<rparr> ''# %%'') = 0 \<and>
   submitCode
      \<lparr>stripFirstMarker = (\<lambda>c. if take 4 c = ''# %%'' then drop 4 c else c),
        EmptyFileName = ''empty'',
        notebookAtEntry = True, notebookAfterEnsure = True,
        perceivedJupyterStartupTelemetryCaptured = False, rejects = (\<lambda>e. False),
        emissions = [Next [init], Next [finished], Complete], stopOnError = True\<rparr>
      ''# %%'' ''a.py'' None None = ([SendKernelTelemetryEvent, TraceInfo], Returns True) \<and>
   submitCode
      \<lparr>stripFirstMarker = (\<lambda>c. if take 4 c = ''# %%'' then drop 4 c else c),
        EmptyFileName = ''empty'',
        notebookAtEntry = True, notebookAfterEnsure = True,
        perceivedJupyterStartupTelemetryCaptured = False, rejects = (\<lambda>e. False),
        emissions = [Next [init], Next [finished], Complete], stopOnError = True\<rparr>
      ''# %%x'' ''a.py'' None None =
     ([SendKernelTelemetryEvent, TraceInfo, SetStatus, ShareMessage ''# %%x'',
       EnsureConnectionAndNotebook, EnsureDarkSet, Show, AddSysInfo, SetLaunchingFile ''a.py'',
       SetFileInKernel ''a.py'', SendTelemetryEvent, OnSessionStatusChanged,
       ExecuteObservable ''# %%x'', FireExecuteEvent ''# %%x'', SendCellsToWebView [init],
       SendCellsToWebView [finished], StatusDispose, TraceInfo, StatusDispose], Returns True)"
  using submitCode_empty
    [of "\<lparr>stripFirstMarker = (\<lambda>c. if take 4 c = ''# %%'' then drop 4 c else c),
        EmptyFileName = ''empty'',
        notebookAtEntry = True, notebookAfterEnsure = True,
        perceivedJupyterStartupTelemetryCaptured = False, rejects = (\<lambda>e. False),
        emissions = [Next [init], Next [finished], Complete], stopOnError = True\<rparr>"
        "''# %%''" "''a.py''" None None]
  by (simp add: submitCode_def Let_def)

section \<open>Properties of \<open>chainWithPendingUpdates\<close>\<close>

subsection \<open>How the building blocks change the state\<close>

lemma nth_update_field:
  assumes "\<And>x. f (g x) = f x"
  shows "f (xs[i := g (xs ! i)] ! j) = f (xs ! j)"
proof (cases "i < length xs")
  case True
  then show ?thesis using assms by (cases "j = i") simp_all
next
  case False
  then have "xs[i := g (xs ! i)] = xs" by (simp add: list_update_beyond)
  then show ?thesis by simp
qed

lemma set_phase_simps [simp]:
  "count (set_phase i ph s) = count s"
  "target (set_phase i ph s) j = target s j"
  "chained_on (set_phase i ph s) j = chained_on s j"
  "deferred_of (set_phase i ph s) j = deferred_of s j"
  "update_of (set_phase i ph s) j = update_of s j"
  "pendingCellUpdates (set_phase i ph s) = pendingCellUpdates s"
  "microtasks (set_phase i ph s) = microtasks s"
  "isClosed (set_phase i ph s) = isClosed s"
  "applyEditThrows (set_phase i ph s) = applyEditThrows s"
  "updateCalls (set_phase i ph s) = updateCalls s"
  "applyEditCalls (set_phase i ph s) = applyEditCalls s"
  by (simp_all add: set_phase_def nth_update_field)

lemma set_phase_same [simp]: "i < count s \<Longrightarrow> phase_of (set_phase i ph s) i = ph"
  by (simp add: set_phase_def)

lemma set_phase_other [simp]: "j \<noteq> i \<Longrightarrow> phase_of (set_phase i ph s) j = phase_of s j"
  by (simp add: set_phase_def)

lemma settle_deferred_simps [simp]:
  "count (settle_deferred i r s) = count s"
  "target (settle_deferred i r s) j = target s j"
  "chained_on (settle_deferred i r s) j = chained_on s j"
  "phase_of (settle_deferred i r s) j = phase_of s j"
  "update_of (settle_deferred i r s) j = update_of s j"
  "pendingCellUpdates (settle_deferred i r s) = pendingCellUpdates s"
  "microtasks (settle_deferred i r s) = microtasks s"
  "isClosed (settle_deferred i r s) = isClosed s"
  "applyEditThrows (settle_deferred i r s) = applyEditThrows s"
  "updateCalls (settle_deferred i r s) = updateCalls s"
  "applyEditCalls (settle_deferred i r s) = applyEditCalls s"
  by (simp_all add: settle_deferred_def nth_update_field)

lemma settle_deferred_same [simp]:
  "i < count s \<Longrightarrow> deferred_of (settle_deferred i r s) i =
     (case r of Inl ex \<Rightarrow> Rejected ex | Inr b \<Rightarrow> Fulfilled b)"
  by (simp add: settle_deferred_def)

lemma settle_deferred_other [simp]:
  "j \<noteq> i \<Longrightarrow> deferred_of (settle_deferred i r s) j = deferred_of s j"
  by (simp add: settle_deferred_def)

lemma finish_simps [simp]:
  "count (finish i s) = count s"
  "target (finish i s) j = target s j"
  "chained_on (finish i s) j = chained_on s j"
  "deferred_of (finish i s) j = deferred_of s j"
  "update_of (finish i s) j = update_of s j"
  "pendingCellUpdates (finish i s) = pendingCellUpdates s"
  "isClosed (finish i s) = isClosed s"
  "applyEditThrows (finish i s) = applyEditThrows s"
  "updateCalls (finish i s) = updateCalls s"
  "applyEditCalls (finish i s) = applyEditCalls s"
  "microtasks (finish i s) =
     microtasks s @ filter (\<lambda>j. chained_on s j = Some i) [0..<count s]"
  by (simp_all add: finish_def)

lemma finish_same [simp]: "i < count s \<Longrightarrow> phase_of (finish i s) i = Settled"
  by (simp add: finish_def)

lemma finish_other [simp]: "j \<noteq> i \<Longrightarrow> phase_of (finish i s) j = phase_of s j"
  by (simp add: finish_def)

lemma enqueue_simps [simp]:
  "count (enqueue k u p s) = Suc (count s)"
  "j < count s \<Longrightarrow> target (enqueue k u p s) j = target s j"
  "j < count s \<Longrightarrow> chained_on (enqueue k u p s) j = chained_on s j"
  "j < count s \<Longrightarrow> phase_of (enqueue k u p s) j = phase_of s j"
  "j < count s \<Longrightarrow> deferred_of (enqueue k u p s) j = deferred_of s j"
  "j < count s \<Longrightarrow> update_of (enqueue k u p s) j = update_of s j"
  "target (enqueue k u p s) (count s) = k"
  "chained_on (enqueue k u p s) (count s) = p"
  "phase_of (enqueue k u p s) (count s) = Queued"
  "deferred_of (enqueue k u p s) (count s) = Pending"
  "update_of (enqueue k u p s) (count s) = u"
  "pendingCellUpdates (enqueue k u p s) = (pendingCellUpdates s)(k \<mapsto> count s)"
  "isClosed (enqueue k u p s) = isClosed s"
  "applyEditThrows (enqueue k u p s) = applyEditThrows s"
  "updateCalls (enqueue k u p s) = updateCalls s"
  "applyEditCalls (enqueue k u p s) = applyEditCalls s"
  "microtasks (enqueue k u p s) =
     (if (case p of None \<Rightarrow> True | Some q \<Rightarrow> settled s q)
      then microtasks s @ [count s] else microtasks s)"
  by (simp_all add: enqueue_def nth_append)


lemma callUpdate_simps [simp]:
  "operations (callUpdate i s) = operations s"
  "pendingCellUpdates (callUpdate i s) = pendingCellUpdates s"
  "microtasks (callUpdate i s) = microtasks s"
  "isClosed (callUpdate i s) = isClosed s"
  "applyEditThrows (callUpdate i s) = applyEditThrows s"
  "updateCalls (callUpdate i s) = updateCalls s @ [i]"
  "applyEditCalls (callUpdate i s) = applyEditCalls s"
  by (simp_all add: callUpdate_def)

lemma awaitApplyEdit_simps [simp]:
  "count (awaitApplyEdit i s) = count s"
  "target (awaitApplyEdit i s) j = target s j"
  "chained_on (awaitApplyEdit i s) j = chained_on s j"
  "deferred_of (awaitApplyEdit i s) j = deferred_of s j"
  "update_of (awaitApplyEdit i s) j = update_of s j"
  "pendingCellUpdates (awaitApplyEdit i s) = pendingCellUpdates s"
  "microtasks (awaitApplyEdit i s) = microtasks s"
  "isClosed (awaitApplyEdit i s) = isClosed s"
  "applyEditThrows (awaitApplyEdit i s) = applyEditThrows s"
  "updateCalls (awaitApplyEdit i s) = updateCalls s"
  "applyEditCalls (awaitApplyEdit i s) = applyEditCalls s @ [i]"
  by (simp_all add: awaitApplyEdit_def)

lemma awaitApplyEdit_same [simp]: "i < count s \<Longrightarrow> phase_of (awaitApplyEdit i s) i = Applying"
  by (simp add: awaitApplyEdit_def)

lemma awaitApplyEdit_other [simp]: "j \<noteq> i \<Longrightarrow> phase_of (awaitApplyEdit i s) j = phase_of s j"
  by (simp add: awaitApplyEdit_def)

lemma callApplyEdit_simps [simp]:
  "count (callApplyEdit i s) = count s"
  "target (callApplyEdit i s) j = target s j"
  "chained_on (callApplyEdit i s) j = chained_on s j"
  "deferred_of (callApplyEdit i s) j = deferred_of s j"
  "update_of (callApplyEdit i s) j = update_of s j"
  "pendingCellUpdates (callApplyEdit i s) = pendingCellUpdates s"
  "isClosed (callApplyEdit i s) = isClosed s"
  "applyEditThrows (callApplyEdit i s) = applyEditThrows s"
  "updateCalls (callApplyEdit i s) = updateCalls s"
  "applyEditCalls (callApplyEdit i s) = applyEditCalls s @ [i]"
  by (simp_all add: callApplyEdit_def throwAtApplyEdit_def)

lemma settled_frame [simp]:
  "settled (settle_deferred i r s) p = settled s p"
  "settled (s\<lparr>updateCalls := us\<rparr>) p = settled s p"
  "settled (s\<lparr>applyEditCalls := as\<rparr>) p = settled s p"
  "settled (s\<lparr>isClosed := c\<rparr>) p = settled s p"
  "settled (s\<lparr>microtasks := ms\<rparr>) p = settled s p"
  by (simp_all add: settled_def)

lemma settled_enqueue [simp]: "settled (enqueue k u q s) p = settled s p"
  by (cases "p < count s") (auto simp: settled_def less_Suc_eq)

lemma settled_set_phase:
  "i < count s \<Longrightarrow> settled (set_phase i ph s) p =
     (if p = i then ph = Settled else settled s p)"
  by (auto simp: settled_def)

lemma settled_finish:
  "i < count s \<Longrightarrow> settled (finish i s) p = (p = i \<or> settled s p)"
  by (cases "p = i") (auto simp: settled_def)

lemma inv_queue_enqueue:
  assumes "inv_queue s" "inv_pred s"
  shows "inv_queue (enqueue k u q s)"
  using assms unfolding inv_queue_def
  by (auto simp: less_Suc_eq split: option.splits)


lemma inv_queue_finish:
  assumes q: "queue_except i s"
    and i: "i < count s" "phase_of s i \<noteq> Settled"
    and pc: "inv_pred s" "inv_chain s"
  shows "inv_queue (finish i s)"
proof -
  have self: "chained_on s i \<noteq> Some i"
    using pc(1) i(1) unfolding inv_pred_def by (metis less_irrefl)
  have waiting: "\<And>j. j < count s \<Longrightarrow> chained_on s j = Some i \<Longrightarrow> phase_of s j = Queued"
    using pc(2) i(2) unfolding inv_chain_def by blast
  have notset: "\<not> settled s i" using i by (simp add: settled_def)
  from q have q1: "distinct (microtasks s)" and q3: "i \<notin> set (microtasks s)"
    and q2: "\<And>j. j \<noteq> i \<Longrightarrow> (j \<in> set (microtasks s) \<longleftrightarrow>
        j < count s \<and> phase_of s j = Queued \<and> (\<forall>p. chained_on s j = Some p \<longrightarrow> settled s p))"
    unfolding queue_except_def by blast+
  have disj: "\<And>x. x \<in> set (microtasks s) \<Longrightarrow> chained_on s x \<noteq> Some i"
  proof
    fix x assume x: "x \<in> set (microtasks s)" and c: "chained_on s x = Some i"
    from x q3 have "x \<noteq> i" by auto
    from q2 [OF this] x c have "settled s i" by blast
    with notset show False by simp
  qed
  have d: "distinct (microtasks (finish i s))"
    using q1 disj by auto
  have m: "\<And>j. j \<in> set (microtasks (finish i s)) \<longleftrightarrow>
        j < count (finish i s) \<and> phase_of (finish i s) j = Queued \<and>
        (\<forall>p. chained_on (finish i s) j = Some p \<longrightarrow> settled (finish i s) p)"
  proof -
    fix j
    show "j \<in> set (microtasks (finish i s)) \<longleftrightarrow>
        j < count (finish i s) \<and> phase_of (finish i s) j = Queued \<and>
        (\<forall>p. chained_on (finish i s) j = Some p \<longrightarrow> settled (finish i s) p)"
    proof (cases "j = i")
      case True
      with q3 i self show ?thesis by auto
    next
      case False
      with q2 [OF False] waiting [of j] i notset show ?thesis
        by (auto simp: settled_finish)
    qed
  qed
  from d m show ?thesis unfolding inv_queue_def by blast
qed

lemma inv_queue_set_phase:
  assumes q: "queue_except i s"
    and i: "i < count s" "phase_of s i \<noteq> Settled" "ph \<noteq> Settled" "ph \<noteq> Queued"
  shows "inv_queue (set_phase i ph s)"
proof -
  have notset: "\<not> settled s i" using i by (simp add: settled_def)
  from q have q1: "distinct (microtasks s)" and q3: "i \<notin> set (microtasks s)"
    and q2: "\<And>j. j \<noteq> i \<Longrightarrow> (j \<in> set (microtasks s) \<longleftrightarrow>
        j < count s \<and> phase_of s j = Queued \<and> (\<forall>p. chained_on s j = Some p \<longrightarrow> settled s p))"
    unfolding queue_except_def by blast+
  have m: "\<And>j. j \<in> set (microtasks (set_phase i ph s)) \<longleftrightarrow>
        j < count (set_phase i ph s) \<and> phase_of (set_phase i ph s) j = Queued \<and>
        (\<forall>p. chained_on (set_phase i ph s) j = Some p \<longrightarrow> settled (set_phase i ph s) p)"
  proof -
    fix j
    show "j \<in> set (microtasks (set_phase i ph s)) \<longleftrightarrow>
        j < count (set_phase i ph s) \<and> phase_of (set_phase i ph s) j = Queued \<and>
        (\<forall>p. chained_on (set_phase i ph s) j = Some p \<longrightarrow> settled (set_phase i ph s) p)"
    proof (cases "j = i")
      case True
      with q3 i show ?thesis by auto
    next
      case False
      with q2 [OF False] i notset show ?thesis
        by (auto simp: settled_set_phase)
    qed
  qed
  from q1 m show ?thesis unfolding inv_queue_def by simp
qed

lemma queue_except_head:
  assumes "inv_queue s" "microtasks s = i # rest"
  shows "queue_except i (s\<lparr>microtasks := rest\<rparr>)"
    and "i < count s" and "phase_of s i = Queued"
    and "\<forall>p. chained_on s i = Some p \<longrightarrow> phase_of s p = Settled"
proof -
  from assms have d: "distinct (i # rest)"
    and m: "\<And>j. j \<in> set (i # rest) \<longleftrightarrow>
        j < count s \<and> phase_of s j = Queued \<and> (\<forall>p. chained_on s j = Some p \<longrightarrow> settled s p)"
    unfolding inv_queue_def by auto
  from m [of i] show "i < count s" "phase_of s i = Queued"
    "\<forall>p. chained_on s i = Some p \<longrightarrow> phase_of s p = Settled"
    by (auto simp: settled_def)
  show "queue_except i (s\<lparr>microtasks := rest\<rparr>)"
    unfolding queue_except_def using d m by auto
qed

lemma queue_except_started:
  assumes "inv_queue s" "phase_of s i \<noteq> Queued"
  shows "queue_except i s"
  using assms unfolding inv_queue_def queue_except_def by auto

subsection \<open>Structure: the map and the chaining\<close>

lemma inv_map_enqueue:
  assumes "inv_map s"
  shows "inv_map (enqueue k u q s)"
proof -
  let ?s = "enqueue k u q s"
  have a: "\<And>k' i. pendingCellUpdates ?s k' = Some i \<Longrightarrow>
        i < count ?s \<and> target ?s i = k' \<and> (\<forall>j. j < count ?s \<and> target ?s j = k' \<longrightarrow> j \<le> i)"
  proof -
    fix k' i assume h: "pendingCellUpdates ?s k' = Some i"
    show "i < count ?s \<and> target ?s i = k' \<and> (\<forall>j. j < count ?s \<and> target ?s j = k' \<longrightarrow> j \<le> i)"
    proof (cases "k' = k")
      case True
      with h have "i = count s" by simp
      with True show ?thesis by (auto simp: less_Suc_eq)
    next
      case False
      with h have old: "pendingCellUpdates s k' = Some i" by simp
      with assms have i: "i < count s" "target s i = k'"
        "\<forall>j. j < count s \<and> target s j = k' \<longrightarrow> j \<le> i"
        unfolding inv_map_def by blast+
      with False show ?thesis by (auto simp: less_Suc_eq)
    qed
  qed
  have b: "\<And>j. j < count ?s \<Longrightarrow> pendingCellUpdates ?s (target ?s j) \<noteq> None"
  proof -
    fix j assume "j < count ?s"
    then consider "j < count s" | "j = count s" by (auto simp: less_Suc_eq)
    then show "pendingCellUpdates ?s (target ?s j) \<noteq> None"
    proof cases
      case 1
      with assms have "pendingCellUpdates s (target s j) \<noteq> None"
        unfolding inv_map_def by blast
      with 1 show ?thesis by simp
    next
      case 2
      then show ?thesis by simp
    qed
  qed
  from a b show ?thesis unfolding inv_map_def by blast
qed

lemma inv_pred_enqueue:
  assumes "inv_pred s" "inv_map s"
    and "q = None \<or> (q = pendingCellUpdates s k \<and>
           pendingCellUpdates s (Document (notebook k)) \<noteq> None)"
  shows "inv_pred (enqueue k u q s)"
proof -
  let ?s = "enqueue k u q s"
  have "\<And>j p. j < count ?s \<Longrightarrow> chained_on ?s j = Some p \<Longrightarrow>
        p < j \<and> target ?s p = target ?s j \<and>
        (\<forall>i. p < i \<and> i < j \<longrightarrow> target ?s i \<noteq> target ?s j) \<and>
        (\<exists>m<j. target ?s m = Document (notebook (target ?s j)))"
  proof -
    fix j p assume j: "j < count ?s" and c: "chained_on ?s j = Some p"
    from j consider "j < count s" | "j = count s" by (auto simp: less_Suc_eq)
    then show "p < j \<and> target ?s p = target ?s j \<and>
        (\<forall>i. p < i \<and> i < j \<longrightarrow> target ?s i \<noteq> target ?s j) \<and>
        (\<exists>m<j. target ?s m = Document (notebook (target ?s j)))"
    proof cases
      case 1
      with c have c': "chained_on s j = Some p" by simp
      with assms(1) 1 have old: "p < j" "target s p = target s j"
        "\<forall>i. p < i \<and> i < j \<longrightarrow> target s i \<noteq> target s j"
        "\<exists>m<j. target s m = Document (notebook (target s j))"
        unfolding inv_pred_def by blast+
      from old(4) obtain m where m: "m < j" "target s m = Document (notebook (target s j))"
        by blast
      from 1 old(1) have pj: "p < count s" by simp
      from 1 m(1) have mj: "m < count s" by simp
      have "\<forall>i. p < i \<and> i < j \<longrightarrow> target ?s i \<noteq> target ?s j"
        using old(3) 1 by auto
      moreover have "\<exists>m<j. target ?s m = Document (notebook (target ?s j))"
        using m mj 1 by auto
      ultimately show ?thesis using old(1,2) pj 1 by simp
    next
      case 2
      with c have qp: "q = Some p" by simp
      with assms(3) have mp: "pendingCellUpdates s k = Some p"
        and md: "pendingCellUpdates s (Document (notebook k)) \<noteq> None" by auto
      from mp assms(2) have p: "p < count s" "target s p = k"
        "\<forall>i. i < count s \<and> target s i = k \<longrightarrow> i \<le> p"
        unfolding inv_map_def by blast+
      from md obtain m where "pendingCellUpdates s (Document (notebook k)) = Some m" by auto
      with assms(2) have m: "m < count s" "target s m = Document (notebook k)"
        unfolding inv_map_def by blast+
      have "\<forall>i. p < i \<and> i < j \<longrightarrow> target ?s i \<noteq> target ?s j"
        using p(3) 2 by auto
      moreover have "\<exists>m<j. target ?s m = Document (notebook (target ?s j))"
        using m 2 by auto
      ultimately show ?thesis using p(1,2) 2 by simp
    qed
  qed
  then show ?thesis unfolding inv_pred_def by blast
qed

lemma inv_none_enqueue:
  assumes "inv_none s" "inv_map s"
    and "q = None \<longrightarrow> pendingCellUpdates s (Document (notebook k)) = None"
  shows "inv_none (enqueue k u q s)"
proof -
  let ?s = "enqueue k u q s"
  have "\<And>j i. j < count ?s \<Longrightarrow> chained_on ?s j = None \<Longrightarrow> i < j \<Longrightarrow>
        target ?s i \<noteq> Document (notebook (target ?s j))"
  proof -
    fix j i assume j: "j < count ?s" and c: "chained_on ?s j = None" and i: "i < j"
    from j consider "j < count s" | "j = count s" by (auto simp: less_Suc_eq)
    then show "target ?s i \<noteq> Document (notebook (target ?s j))"
    proof cases
      case 1
      with c i assms(1) have "target s i \<noteq> Document (notebook (target s j))"
        unfolding inv_none_def by auto
      with 1 i show ?thesis by simp
    next
      case 2
      with c have "q = None" by simp
      with assms(3) have "pendingCellUpdates s (Document (notebook k)) = None" by simp
      moreover from i 2 have "i < count s" by simp
      ultimately have "target s i \<noteq> Document (notebook k)"
        using assms(2) unfolding inv_map_def by metis
      with 2 i show ?thesis by simp
    qed
  qed
  then show ?thesis unfolding inv_none_def by blast
qed


lemma inv_struct_frame [simp]:
  "inv_map (set_phase i ph s) = inv_map s"
  "inv_pred (set_phase i ph s) = inv_pred s"
  "inv_none (set_phase i ph s) = inv_none s"
  "inv_map (finish i s) = inv_map s"
  "inv_pred (finish i s) = inv_pred s"
  "inv_none (finish i s) = inv_none s"
  "inv_map (settle_deferred i r s) = inv_map s"
  "inv_pred (settle_deferred i r s) = inv_pred s"
  "inv_none (settle_deferred i r s) = inv_none s"
  by (simp_all add: inv_map_def inv_pred_def inv_none_def)

lemma inv_struct_fields [simp]:
  "inv_map (s\<lparr>microtasks := ms\<rparr>) = inv_map s"
  "inv_pred (s\<lparr>microtasks := ms\<rparr>) = inv_pred s"
  "inv_none (s\<lparr>microtasks := ms\<rparr>) = inv_none s"
  "inv_map (s\<lparr>updateCalls := us\<rparr>) = inv_map s"
  "inv_pred (s\<lparr>updateCalls := us\<rparr>) = inv_pred s"
  "inv_none (s\<lparr>updateCalls := us\<rparr>) = inv_none s"
  "inv_map (s\<lparr>applyEditCalls := as\<rparr>) = inv_map s"
  "inv_pred (s\<lparr>applyEditCalls := as\<rparr>) = inv_pred s"
  "inv_none (s\<lparr>applyEditCalls := as\<rparr>) = inv_none s"
  "inv_map (s\<lparr>isClosed := c\<rparr>) = inv_map s"
  "inv_pred (s\<lparr>isClosed := c\<rparr>) = inv_pred s"
  "inv_none (s\<lparr>isClosed := c\<rparr>) = inv_none s"
  by (simp_all add: inv_map_def inv_pred_def inv_none_def)

subsection \<open>A chained operation starts after the one it is chained on has settled\<close>

lemma inv_chain_enqueue:
  assumes "inv_chain s" "inv_pred s"
  shows "inv_chain (enqueue k u q s)"
proof -
  let ?s = "enqueue k u q s"
  have "\<And>j p. j < count ?s \<Longrightarrow> chained_on ?s j = Some p \<Longrightarrow> phase_of ?s j \<noteq> Queued \<Longrightarrow>
          phase_of ?s p = Settled"
  proof -
    fix j p
    assume j: "j < count ?s" and c: "chained_on ?s j = Some p" and ph: "phase_of ?s j \<noteq> Queued"
    from j ph have 1: "j < count s" by (auto simp: less_Suc_eq)
    with c ph have c': "chained_on s j = Some p" "phase_of s j \<noteq> Queued" by simp_all
    with assms(2) 1 have "p < j" unfolding inv_pred_def by blast
    with 1 have "p < count s" by simp
    moreover from assms(1) 1 c' have "phase_of s p = Settled" unfolding inv_chain_def by blast
    ultimately show "phase_of ?s p = Settled" by simp
  qed
  then show ?thesis unfolding inv_chain_def by blast
qed

lemma inv_chain_set_phase:
  assumes "inv_chain s" "i < count s"
    and "ph = Settled \<or> phase_of s i \<noteq> Settled"
    and "\<forall>p. chained_on s i = Some p \<longrightarrow> phase_of s p = Settled"
  shows "inv_chain (set_phase i ph s)"
proof -
  let ?s = "set_phase i ph s"
  have "\<And>j p. j < count ?s \<Longrightarrow> chained_on ?s j = Some p \<Longrightarrow> phase_of ?s j \<noteq> Queued \<Longrightarrow>
          phase_of ?s p = Settled"
  proof -
    fix j p
    assume j: "j < count ?s" and c: "chained_on ?s j = Some p" and ph: "phase_of ?s j \<noteq> Queued"
    have old: "phase_of s p = Settled"
    proof (cases "j = i")
      case True
      with c assms(4) show ?thesis by simp
    next
      case False
      with j c ph assms(1) show ?thesis unfolding inv_chain_def by auto
    qed
    show "phase_of ?s p = Settled"
    proof (cases "p = i")
      case True
      with old assms(2,3) show ?thesis by auto
    next
      case False
      with old show ?thesis by simp
    qed
  qed
  then show ?thesis unfolding inv_chain_def by blast
qed

lemma inv_chain_frame [simp]:
  "inv_chain (finish i s) = inv_chain (set_phase i Settled s)"
  "inv_chain (settle_deferred i r s) = inv_chain s"
  "inv_chain (s\<lparr>microtasks := ms\<rparr>) = inv_chain s"
  "inv_chain (s\<lparr>updateCalls := us\<rparr>) = inv_chain s"
  "inv_chain (s\<lparr>applyEditCalls := as\<rparr>) = inv_chain s"
  "inv_chain (s\<lparr>isClosed := c\<rparr>) = inv_chain s"
  by (simp_all add: inv_chain_def finish_def)

subsection \<open>The queue of ready reactions\<close>

lemma inv_queue_frame [simp]:
  "inv_queue (settle_deferred i r s) = inv_queue s"
  "inv_queue (s\<lparr>updateCalls := us\<rparr>) = inv_queue s"
  "inv_queue (s\<lparr>applyEditCalls := as\<rparr>) = inv_queue s"
  "inv_queue (s\<lparr>isClosed := c\<rparr>) = inv_queue s"
  by (simp_all add: inv_queue_def)

lemma inv_sorted_frame [simp]:
  "inv_sorted (set_phase i ph s) = inv_sorted s"
  "inv_sorted (settle_deferred i r s) = inv_sorted s"
  "inv_sorted (s\<lparr>updateCalls := us\<rparr>) = inv_sorted s"
  "inv_sorted (s\<lparr>applyEditCalls := as\<rparr>) = inv_sorted s"
  "inv_sorted (s\<lparr>isClosed := c\<rparr>) = inv_sorted s"
  by (simp_all add: inv_sorted_def)

lemma inv_sorted_finish [simp]: "inv_sorted (finish i s) = inv_sorted s"
proof -
  have "filter (\<lambda>j. chained_on s j = None) (filter (\<lambda>j. chained_on s j = Some i) [0..<count s]) = []"
    by (auto simp: filter_empty_conv)
  then show ?thesis by (simp add: inv_sorted_def)
qed

lemma inv_sorted_enqueue:
  assumes "inv_sorted s" "inv_queue s"
  shows "inv_sorted (enqueue k u q s)"
proof -
  have lt: "\<forall>j \<in> set (microtasks s). j < count s"
    using assms(2) unfolding inv_queue_def by blast
  then have eq: "filter (\<lambda>j. chained_on (enqueue k u q s) j = None) (microtasks s) =
      filter (\<lambda>j. chained_on s j = None) (microtasks s)"
    by (intro filter_cong) auto
  have "sorted (filter (\<lambda>j. chained_on s j = None) (microtasks s) @ [count s])"
    using assms(1) lt unfolding inv_sorted_def
    by (auto simp: sorted_append less_imp_le)
  with assms(1) eq show ?thesis
    unfolding inv_sorted_def by (auto simp: inv_sorted_def)
qed

lemma inv_sorted_tail:
  assumes "inv_sorted s" "microtasks s = i # rest"
  shows "inv_sorted (s\<lparr>microtasks := rest\<rparr>)"
  using assms unfolding inv_sorted_def by (auto split: if_splits)

lemma head_is_first:
  assumes "inv_sorted s" "inv_queue s" "microtasks s = i # rest"
    and "i' < i" "chained_on s i' = None" "chained_on s i = None" "i < count s"
  shows "phase_of s i' \<noteq> Queued"
proof
  assume q: "phase_of s i' = Queued"
  from assms(4,7) have "i' < count s" by simp
  with q assms(2,5) have "i' \<in> set (microtasks s)" unfolding inv_queue_def by simp
  with assms(3,4) have "i' \<in> set rest" by auto
  with assms(5) have in': "i' \<in> set (filter (\<lambda>j. chained_on s j = None) rest)" by simp
  from assms(1,3,6) have "sorted (i # filter (\<lambda>j. chained_on s j = None) rest)"
    unfolding inv_sorted_def by simp
  with in' have "i \<le> i'" by auto
  with assms(4) show False by simp
qed

lemma inv_firstD:
  "inv_first s \<Longrightarrow> i < j \<Longrightarrow> j < count s \<Longrightarrow> chained_on s i = None \<Longrightarrow>
     chained_on s j = None \<Longrightarrow> phase_of s j \<noteq> Queued \<Longrightarrow> phase_of s i \<noteq> Queued"
  unfolding inv_first_def by blast

lemma inv_first_enqueue:
  assumes "inv_first s"
  shows "inv_first (enqueue k u q s)"
proof -
  let ?s = "enqueue k u q s"
  have "\<And>a b. a < b \<Longrightarrow> b < count ?s \<Longrightarrow> chained_on ?s a = None \<Longrightarrow> chained_on ?s b = None \<Longrightarrow>
        phase_of ?s b \<noteq> Queued \<Longrightarrow> phase_of ?s a \<noteq> Queued"
  proof -
    fix a b
    assume h: "a < b" "b < count ?s" "chained_on ?s a = None" "chained_on ?s b = None"
       "phase_of ?s b \<noteq> Queued"
    from h(2,5) have b: "b < count s" by (auto simp: less_Suc_eq)
    with h(1) have a: "a < count s" by simp
    from h a b have "phase_of s a \<noteq> Queued"
      using inv_firstD [OF assms, of a b] by simp
    with a show "phase_of ?s a \<noteq> Queued" by simp
  qed
  then show ?thesis unfolding inv_first_def by blast
qed

lemma inv_first_set_phase:
  assumes "inv_first s" "i < count s" "ph \<noteq> Queued"
    and "phase_of s i = Queued \<longrightarrow>
          (\<forall>i'<i. chained_on s i' = None \<and> chained_on s i = None \<longrightarrow> phase_of s i' \<noteq> Queued)"
  shows "inv_first (set_phase i ph s)"
proof -
  let ?s = "set_phase i ph s"
  have "\<And>a b. a < b \<Longrightarrow> b < count ?s \<Longrightarrow> chained_on ?s a = None \<Longrightarrow> chained_on ?s b = None \<Longrightarrow>
        phase_of ?s b \<noteq> Queued \<Longrightarrow> phase_of ?s a \<noteq> Queued"
  proof -
    fix a b
    assume h: "a < b" "b < count ?s" "chained_on ?s a = None" "chained_on ?s b = None"
       "phase_of ?s b \<noteq> Queued"
    show "phase_of ?s a \<noteq> Queued"
    proof (cases "a = i")
      case True
      with assms(2,3) show ?thesis by simp
    next
      case False
      have "phase_of s a \<noteq> Queued"
      proof (cases "b = i")
        case True
        show ?thesis
        proof (cases "phase_of s i = Queued")
          case True
          with assms(4) h \<open>b = i\<close> show ?thesis by auto
        next
          case False
          with assms(1) h \<open>b = i\<close> show ?thesis unfolding inv_first_def by auto
        qed
      next
        case False
        with assms(1) h show ?thesis unfolding inv_first_def by auto
      qed
      with False show ?thesis by simp
    qed
  qed
  then show ?thesis unfolding inv_first_def by blast
qed

lemma inv_first_frame [simp]:
  "inv_first (finish i s) = inv_first (set_phase i Settled s)"
  "inv_first (settle_deferred i r s) = inv_first s"
  "inv_first (s\<lparr>microtasks := ms\<rparr>) = inv_first s"
  "inv_first (s\<lparr>updateCalls := us\<rparr>) = inv_first s"
  "inv_first (s\<lparr>applyEditCalls := as\<rparr>) = inv_first s"
  "inv_first (s\<lparr>isClosed := c\<rparr>) = inv_first s"
  by (simp_all add: inv_first_def finish_def)


subsection \<open>Order of the starts on one key\<close>

lemma inv_predD:
  assumes "inv_pred s" "j < count s" "chained_on s j = Some p"
  shows "p < j" "target s p = target s j"
    "\<And>i. p < i \<Longrightarrow> i < j \<Longrightarrow> target s i \<noteq> target s j"
    "\<exists>m<j. target s m = Document (notebook (target s j))"
  using assms unfolding inv_pred_def by blast+

lemma inv_noneD:
  "inv_none s \<Longrightarrow> j < count s \<Longrightarrow> chained_on s j = None \<Longrightarrow> i < j \<Longrightarrow>
     target s i \<noteq> Document (notebook (target s j))"
  unfolding inv_none_def by blast

lemma inv_chainD:
  "inv_chain s \<Longrightarrow> j < count s \<Longrightarrow> chained_on s j = Some p \<Longrightarrow> phase_of s j \<noteq> Queued \<Longrightarrow>
     phase_of s p = Settled"
  unfolding inv_chain_def by blast

lemma unchained_before:
  assumes "inv_pred s" "inv_none s" "j < count s" "chained_on s j = None"
    and "i < j" "target s i = target s j"
  shows "chained_on s i = None"
proof (rule ccontr)
  assume "chained_on s i \<noteq> None"
  then obtain p where p: "chained_on s i = Some p" by auto
  from assms(3,5) have i: "i < count s" by simp
  from inv_predD(4) [OF assms(1) i p] obtain m where
    m: "m < i" "target s m = Document (notebook (target s i))" by blast
  from m(1) assms(5) have "m < j" by simp
  from inv_noneD [OF assms(2,3,4) this] m(2) assms(6) show False by simp
qed

lemma in_order_derived:
  assumes "inv_pred s" "inv_none s" "inv_chain s" "inv_first s"
  shows "in_order s"
proof -
  have "\<And>i. i < j \<Longrightarrow> j < count s \<Longrightarrow> target s i = target s j \<Longrightarrow> phase_of s j \<noteq> Queued \<Longrightarrow>
          phase_of s i \<noteq> Queued" for j
  proof (induction j rule: less_induct)
    case (less j)
    show ?case
    proof (cases "chained_on s j")
      case None
      from unchained_before [OF assms(1,2) less.prems(2) None less.prems(1,3)]
      have "chained_on s i = None" .
      from inv_firstD [OF assms(4) less.prems(1,2) this None less.prems(4)]
      show ?thesis .
    next
      case (Some p)
      note pd = inv_predD [OF assms(1) less.prems(2) Some]
      have settled: "phase_of s p = Settled"
        by (rule inv_chainD [OF assms(3) less.prems(2) Some less.prems(4)])
      have "i \<le> p"
      proof (rule ccontr)
        assume "\<not> i \<le> p"
        then have "p < i" by simp
        from pd(3) [OF this less.prems(1)] less.prems(3) show False by simp
      qed
      then consider "i = p" | "i < p" by (auto simp: le_less)
      then show ?thesis
      proof cases
        case 1
        with settled show ?thesis by simp
      next
        case 2
        from pd(1) less.prems(2) have "p < count s" by simp
        moreover from pd(2) less.prems(3) have "target s i = target s p" by simp
        moreover from settled have "phase_of s p \<noteq> Queued" by simp
        ultimately show ?thesis using less.IH [OF pd(1) 2] by blast
      qed
    qed
  qed
  then show ?thesis unfolding in_order_def by blast
qed

text \<open>On a document key, an operation starts only after every earlier one has settled.\<close>

lemma document_serial:
  assumes "inv_pred s" "inv_none s" "inv_chain s"
  shows "i < j \<Longrightarrow> j < count s \<Longrightarrow> target s i = Document d \<Longrightarrow> target s j = Document d \<Longrightarrow>
           phase_of s j \<noteq> Queued \<Longrightarrow> phase_of s i = Settled"
proof (induction j rule: less_induct)
  case (less j)
  show ?case
  proof (cases "chained_on s j")
    case None
    from inv_noneD [OF assms(2) less.prems(2) None less.prems(1)] less.prems(3,4)
    show ?thesis by simp
  next
    case (Some p)
    note pd = inv_predD [OF assms(1) less.prems(2) Some]
    have settled: "phase_of s p = Settled"
      by (rule inv_chainD [OF assms(3) less.prems(2) Some less.prems(5)])
    have "i \<le> p"
    proof (rule ccontr)
      assume "\<not> i \<le> p"
      then have "p < i" by simp
      from pd(3) [OF this less.prems(1)] less.prems(3,4) show False by simp
    qed
    then consider "i = p" | "i < p" by (auto simp: le_less)
    then show ?thesis
    proof cases
      case 1
      with settled show ?thesis by simp
    next
      case 2
      from pd(1) less.prems(2) have "p < count s" by simp
      moreover from pd(2) less.prems(4) have "target s p = Document d" by simp
      moreover from settled have "phase_of s p \<noteq> Queued" by simp
      ultimately show ?thesis using less.IH [OF pd(1) 2] less.prems(3) by blast
    qed
  qed
qed


subsection \<open>The logs and the promise of the caller\<close>

lemma in_orderD:
  "in_order s \<Longrightarrow> i < j \<Longrightarrow> j < count s \<Longrightarrow> target s i = target s j \<Longrightarrow>
     phase_of s j \<noteq> Queued \<Longrightarrow> phase_of s i \<noteq> Queued"
  unfolding in_order_def by blast

lemma inv_log_enqueue:
  assumes "inv_log s"
  shows "inv_log (enqueue k u q s)"
proof -
  let ?s = "enqueue k u q s"
  from assms have set: "set (updateCalls s) = {j. j < count s \<and> phase_of s j \<noteq> Queued}"
    and sorted: "\<And>k. sorted_wrt (<) (filter (\<lambda>j. target s j = k) (updateCalls s))"
    unfolding inv_log_def by blast+
  have "{j. j < count ?s \<and> phase_of ?s j \<noteq> Queued} = {j. j < count s \<and> phase_of s j \<noteq> Queued}"
    by (auto simp: less_Suc_eq)
  with set have a: "set (updateCalls ?s) = {j. j < count ?s \<and> phase_of ?s j \<noteq> Queued}"
    by simp
  have b: "\<And>k'. sorted_wrt (<) (filter (\<lambda>j. target ?s j = k') (updateCalls ?s))"
  proof -
    fix k'
    have "filter (\<lambda>j. target ?s j = k') (updateCalls s) =
          filter (\<lambda>j. target s j = k') (updateCalls s)"
      using set by (intro filter_cong) auto
    with sorted [of k'] show "sorted_wrt (<) (filter (\<lambda>j. target ?s j = k') (updateCalls ?s))"
      by simp
  qed
  from a b show ?thesis unfolding inv_log_def by blast
qed

lemma log_except_callUpdate:
  assumes "inv_log s" "in_order s" "i < count s" "phase_of s i = Queued"
  shows "log_except i (callUpdate i s)"
proof -
  from assms(1) have set: "set (updateCalls s) = {j. j < count s \<and> phase_of s j \<noteq> Queued}"
    and sorted: "\<And>k. sorted_wrt (<) (filter (\<lambda>j. target s j = k) (updateCalls s))"
    unfolding inv_log_def by blast+
  have before: "\<And>m. m \<in> set (updateCalls s) \<Longrightarrow> target s m = target s i \<Longrightarrow> m < i"
  proof (rule ccontr)
    fix m assume m: "m \<in> set (updateCalls s)" "target s m = target s i" and "\<not> m < i"
    from m(1) set have mm: "m < count s" "phase_of s m \<noteq> Queued" by auto
    with assms(4) have "m \<noteq> i" by auto
    with \<open>\<not> m < i\<close> have "i < m" by simp
    from in_orderD [OF assms(2) this mm(1)] m(2) mm(2) assms(4) show False by simp
  qed
  have "\<And>k. sorted_wrt (<) (filter (\<lambda>j. target s j = k) (updateCalls s @ [i]))"
    using sorted before by (auto simp: sorted_wrt_append)
  with set show ?thesis unfolding log_except_def by simp
qed

lemma log_except_started:
  assumes "inv_log s" "i < count s" "phase_of s i \<noteq> Queued"
  shows "log_except i s"
  using assms unfolding inv_log_def log_except_def by auto

lemma inv_log_set_phase:
  assumes "log_except i s" "i < count s" "ph \<noteq> Queued"
  shows "inv_log (set_phase i ph s)"
proof -
  have "{j. j < count (set_phase i ph s) \<and> phase_of (set_phase i ph s) j \<noteq> Queued} =
        insert i {j. j < count s \<and> phase_of s j \<noteq> Queued}"
  proof (rule set_eqI)
    fix j
    show "j \<in> {j. j < count (set_phase i ph s) \<and> phase_of (set_phase i ph s) j \<noteq> Queued} \<longleftrightarrow>
          j \<in> insert i {j. j < count s \<and> phase_of s j \<noteq> Queued}"
      using assms(2,3) by (cases "j = i") auto
  qed
  with assms(1) show ?thesis unfolding inv_log_def log_except_def by simp
qed

lemma inv_log_frame [simp]:
  "inv_log (finish i s) = inv_log (set_phase i Settled s)"
  "inv_log (awaitApplyEdit i s) = inv_log (set_phase i Applying s)"
  "inv_log (settle_deferred i r s) = inv_log s"
  "inv_log (s\<lparr>microtasks := ms\<rparr>) = inv_log s"
  "inv_log (s\<lparr>isClosed := c\<rparr>) = inv_log s"
  "log_except j (settle_deferred i r s) = log_except j s"
  "log_except j (s\<lparr>microtasks := ms\<rparr>) = log_except j s"
  by (simp_all add: inv_log_def log_except_def finish_def awaitApplyEdit_def)

lemma inv_apply_enqueue:
  assumes "inv_apply s"
  shows "inv_apply (enqueue k u q s)"
proof -
  let ?s = "enqueue k u q s"
  from assms have a: "\<And>j. j \<in> set (applyEditCalls s) \<Longrightarrow> j < count s \<and> edit_size (update_of s j) \<noteq> 0"
    and b: "\<And>j. j < count s \<Longrightarrow> phase_of s j = Applying \<Longrightarrow> j \<in> set (applyEditCalls s)"
    unfolding inv_apply_def by blast+
  have a': "\<And>j. j \<in> set (applyEditCalls ?s) \<Longrightarrow> j < count ?s \<and> edit_size (update_of ?s j) \<noteq> 0"
  proof -
    fix j assume "j \<in> set (applyEditCalls ?s)"
    then have "j \<in> set (applyEditCalls s)" by simp
    from a [OF this] show "j < count ?s \<and> edit_size (update_of ?s j) \<noteq> 0" by simp
  qed
  have b': "\<And>j. j < count ?s \<Longrightarrow> phase_of ?s j = Applying \<Longrightarrow> j \<in> set (applyEditCalls ?s)"
  proof -
    fix j assume j: "j < count ?s" "phase_of ?s j = Applying"
    then have "j < count s" by (auto simp: less_Suc_eq)
    with j b [of j] show "j \<in> set (applyEditCalls ?s)" by simp
  qed
  from a' b' show ?thesis unfolding inv_apply_def by blast
qed

lemma inv_apply_set_phase:
  assumes "inv_apply s" "i < count s" "ph \<noteq> Applying"
  shows "inv_apply (set_phase i ph s)"
proof -
  let ?s = "set_phase i ph s"
  from assms have a: "\<And>j. j \<in> set (applyEditCalls s) \<Longrightarrow> j < count s \<and> edit_size (update_of s j) \<noteq> 0"
    and b: "\<And>j. j < count s \<Longrightarrow> phase_of s j = Applying \<Longrightarrow> j \<in> set (applyEditCalls s)"
    unfolding inv_apply_def by blast+
  have b': "\<And>j. j < count ?s \<Longrightarrow> phase_of ?s j = Applying \<Longrightarrow> j \<in> set (applyEditCalls ?s)"
  proof -
    fix j assume "j < count ?s" "phase_of ?s j = Applying"
    with assms(2,3) b [of j] show "j \<in> set (applyEditCalls ?s)"
      by (cases "j = i") auto
  qed
  from a b' show ?thesis unfolding inv_apply_def by simp
qed

lemma inv_apply_awaitApplyEdit:
  assumes "inv_apply s" "i < count s" "edit_size (update_of s i) \<noteq> 0"
  shows "inv_apply (awaitApplyEdit i s)"
proof -
  let ?s = "awaitApplyEdit i s"
  from assms have a: "\<And>j. j \<in> set (applyEditCalls s) \<Longrightarrow> j < count s \<and> edit_size (update_of s j) \<noteq> 0"
    and b: "\<And>j. j < count s \<Longrightarrow> phase_of s j = Applying \<Longrightarrow> j \<in> set (applyEditCalls s)"
    unfolding inv_apply_def by blast+
  have a': "\<And>j. j \<in> set (applyEditCalls ?s) \<Longrightarrow> j < count ?s \<and> edit_size (update_of ?s j) \<noteq> 0"
    using a assms(2,3) by auto
  have b': "\<And>j. j < count ?s \<Longrightarrow> phase_of ?s j = Applying \<Longrightarrow> j \<in> set (applyEditCalls ?s)"
  proof -
    fix j assume "j < count ?s" "phase_of ?s j = Applying"
    with b [of j] show "j \<in> set (applyEditCalls ?s)"
      by (cases "j = i") auto
  qed
  from a' b' show ?thesis unfolding inv_apply_def by blast
qed

lemma inv_apply_frame [simp]:
  "inv_apply (finish i s) = inv_apply (set_phase i Settled s)"
  "inv_apply (settle_deferred i r s) = inv_apply s"
  "inv_apply (callUpdate i s) = inv_apply s"
  "inv_apply (s\<lparr>microtasks := ms\<rparr>) = inv_apply s"
  "inv_apply (s\<lparr>isClosed := c\<rparr>) = inv_apply s"
  by (simp_all add: inv_apply_def finish_def)

lemma inv_deferred_enqueue:
  assumes "inv_deferred s"
  shows "inv_deferred (enqueue k u q s)"
proof -
  let ?s = "enqueue k u q s"
  have "\<And>j. j < count ?s \<Longrightarrow> deferred_of ?s j \<noteq> Pending \<Longrightarrow>
          phase_of ?s j = Settled \<and> j \<in> set (applyEditCalls ?s)"
  proof -
    fix j assume j: "j < count ?s" "deferred_of ?s j \<noteq> Pending"
    then have "j < count s" by (auto simp: less_Suc_eq)
    with j assms show "phase_of ?s j = Settled \<and> j \<in> set (applyEditCalls ?s)"
      unfolding inv_deferred_def by auto
  qed
  then show ?thesis unfolding inv_deferred_def by blast
qed

lemma inv_deferredD:
  "inv_deferred s \<Longrightarrow> j < count s \<Longrightarrow> deferred_of s j \<noteq> Pending \<Longrightarrow>
     phase_of s j = Settled \<and> j \<in> set (applyEditCalls s)"
  unfolding inv_deferred_def by blast

lemma inv_deferred_set_phase:
  assumes "inv_deferred s" "i < count s" "ph = Settled \<or> phase_of s i \<noteq> Settled"
  shows "inv_deferred (set_phase i ph s)"
proof -
  let ?s = "set_phase i ph s"
  have "\<And>j. j < count ?s \<Longrightarrow> deferred_of ?s j \<noteq> Pending \<Longrightarrow>
          phase_of ?s j = Settled \<and> j \<in> set (applyEditCalls ?s)"
  proof -
    fix j assume j: "j < count ?s" "deferred_of ?s j \<noteq> Pending"
    with inv_deferredD [OF assms(1), of j] assms(2,3)
    show "phase_of ?s j = Settled \<and> j \<in> set (applyEditCalls ?s)"
      by (cases "j = i") auto
  qed
  then show ?thesis unfolding inv_deferred_def by blast
qed

lemma inv_deferred_awaitApplyEdit:
  assumes "inv_deferred s" "i < count s" "phase_of s i \<noteq> Settled"
  shows "inv_deferred (awaitApplyEdit i s)"
proof -
  let ?s = "awaitApplyEdit i s"
  have "\<And>j. j < count ?s \<Longrightarrow> deferred_of ?s j \<noteq> Pending \<Longrightarrow>
          phase_of ?s j = Settled \<and> j \<in> set (applyEditCalls ?s)"
  proof -
    fix j assume j: "j < count ?s" "deferred_of ?s j \<noteq> Pending"
    with inv_deferredD [OF assms(1), of j] assms(2,3)
    show "phase_of ?s j = Settled \<and> j \<in> set (applyEditCalls ?s)"
      by (cases "j = i") auto
  qed
  then show ?thesis unfolding inv_deferred_def by blast
qed

lemma inv_deferred_settle:
  assumes "inv_deferred s" "inv_apply s" "i < count s" "phase_of s i = Applying"
  shows "inv_deferred (finish i (settle_deferred i r s))"
proof -
  let ?s = "finish i (settle_deferred i r s)"
  from assms(2,3,4) have logged: "i \<in> set (applyEditCalls s)"
    unfolding inv_apply_def by blast
  have "\<And>j. j < count ?s \<Longrightarrow> deferred_of ?s j \<noteq> Pending \<Longrightarrow>
          phase_of ?s j = Settled \<and> j \<in> set (applyEditCalls ?s)"
  proof -
    fix j assume j: "j < count ?s" "deferred_of ?s j \<noteq> Pending"
    show "phase_of ?s j = Settled \<and> j \<in> set (applyEditCalls ?s)"
    proof (cases "j = i")
      case True
      with assms(3) logged show ?thesis by simp
    next
      case False
      with j inv_deferredD [OF assms(1), of j] show ?thesis by simp
    qed
  qed
  then show ?thesis unfolding inv_deferred_def by blast
qed

lemma inv_deferred_frame [simp]:
  "inv_deferred (finish i s) = inv_deferred (set_phase i Settled s)"
  "inv_deferred (callUpdate i s) = inv_deferred s"
  "inv_deferred (s\<lparr>microtasks := ms\<rparr>) = inv_deferred s"
  "inv_deferred (s\<lparr>isClosed := c\<rparr>) = inv_deferred s"
  by (simp_all add: inv_deferred_def finish_def)


subsection \<open>Every step keeps the invariant\<close>

lemma invariant_loaded: "invariant loaded"
  by (simp add: invariant_def invariant_core_def loaded_def inv_map_def inv_pred_def inv_none_def
      inv_queue_def inv_chain_def inv_sorted_def inv_first_def inv_log_def inv_apply_def
      inv_deferred_def)

lemma invariant_enqueue:
  assumes "invariant s"
    and "(q = None \<and> pendingCellUpdates s (Document (notebook k)) = None) \<or>
         (q = pendingCellUpdates s k \<and> q \<noteq> None \<and>
          pendingCellUpdates s (Document (notebook k)) \<noteq> None)"
  shows "invariant (enqueue k u q s)"
proof -
  from assms(1) have i: "inv_map s" "inv_pred s" "inv_none s" "inv_queue s" "inv_chain s"
    "inv_sorted s" "inv_first s" "inv_log s" "inv_apply s" "inv_deferred s"
    unfolding invariant_def invariant_core_def by blast+
  have "inv_pred (enqueue k u q s)"
    using assms(2) by (intro inv_pred_enqueue i) blast
  moreover have "inv_none (enqueue k u q s)"
    using assms(2) by (intro inv_none_enqueue i) blast
  ultimately show ?thesis
    unfolding invariant_def invariant_core_def
    using inv_map_enqueue [OF i(1)] inv_queue_enqueue [OF i(4) i(2)] inv_chain_enqueue [OF i(5) i(2)]
      inv_sorted_enqueue [OF i(6) i(4)] inv_first_enqueue [OF i(7)] inv_log_enqueue [OF i(8)]
      inv_apply_enqueue [OF i(9)] inv_deferred_enqueue [OF i(10)]
    by simp
qed

lemma invariant_call:
  assumes "invariant s"
  shows "invariant (snd (chainWithPendingUpdates k u s))"
proof (cases "isClosed s (notebook k)")
  case True
  with assms show ?thesis by (simp add: chainWithPendingUpdates_def)
next
  case False
  show ?thesis
  proof (cases "pendingCellUpdates s (Document (notebook k))")
    case None
    with False have "snd (chainWithPendingUpdates k u s) = enqueue k u None s"
      by (simp add: chainWithPendingUpdates_def)
    with invariant_enqueue [OF assms, of None k u] None show ?thesis by simp
  next
    case (Some d)
    show ?thesis
    proof (cases "pendingCellUpdates s k")
      case None
      with Some False assms show ?thesis by (simp add: chainWithPendingUpdates_def)
    next
      case (Some p)
      with \<open>pendingCellUpdates s (Document (notebook k)) = Some d\<close> False
      have "snd (chainWithPendingUpdates k u s) = enqueue k u (Some p) s"
        by (simp add: chainWithPendingUpdates_def)
      with invariant_enqueue [OF assms, of "Some p" k u] Some
        \<open>pendingCellUpdates s (Document (notebook k)) = Some d\<close>
      show ?thesis by simp
    qed
  qed
qed

lemma callUpdate_frame [simp]:
  "inv_map (callUpdate i s) = inv_map s"
  "inv_pred (callUpdate i s) = inv_pred s"
  "inv_none (callUpdate i s) = inv_none s"
  "inv_chain (callUpdate i s) = inv_chain s"
  "inv_first (callUpdate i s) = inv_first s"
  "inv_sorted (callUpdate i s) = inv_sorted s"
  "queue_except j (callUpdate i s) = queue_except j s"
  by (simp_all add: callUpdate_def queue_except_def)

lemma microtasks_frame [simp]:
  "log_except j (callUpdate i (s\<lparr>microtasks := ms\<rparr>)) = log_except j (callUpdate i s)"
  by (simp add: log_except_def)

lemma running_head:
  assumes "invariant s" "microtasks s = i # rest"
  shows "running i (callUpdate i (s\<lparr>microtasks := rest\<rparr>))"
    and "phase_of s i = Queued"
proof -
  from assms(1) have i: "inv_map s" "inv_pred s" "inv_none s" "inv_queue s" "inv_chain s"
    "inv_sorted s" "inv_first s" "inv_log s" "inv_apply s" "inv_deferred s"
    unfolding invariant_def invariant_core_def by blast+
  note h = queue_except_head [OF i(4) assms(2)]
  show "phase_of s i = Queued" by (rule h(3))
  have ord: "in_order s" by (rule in_order_derived [OF i(2,3,5,7)])
  have first: "\<forall>i'<i. chained_on s i' = None \<and> chained_on s i = None \<longrightarrow> phase_of s i' \<noteq> Queued"
    using head_is_first [OF i(6) i(4) assms(2)] h(2) by blast
  have l: "log_except i (callUpdate i s)"
    by (rule log_except_callUpdate [OF i(8) ord h(2,3)])
  note srt = inv_sorted_tail [OF i(6) assms(2)]
  have "i < count (callUpdate i (s\<lparr>microtasks := rest\<rparr>))"
    "phase_of (callUpdate i (s\<lparr>microtasks := rest\<rparr>)) i \<noteq> Settled"
    "\<forall>p. chained_on (callUpdate i (s\<lparr>microtasks := rest\<rparr>)) i = Some p \<longrightarrow>
         phase_of (callUpdate i (s\<lparr>microtasks := rest\<rparr>)) p = Settled"
    "phase_of (callUpdate i (s\<lparr>microtasks := rest\<rparr>)) i = Queued \<longrightarrow>
        (\<forall>i'<i. chained_on (callUpdate i (s\<lparr>microtasks := rest\<rparr>)) i' = None \<and>
           chained_on (callUpdate i (s\<lparr>microtasks := rest\<rparr>)) i = None \<longrightarrow>
           phase_of (callUpdate i (s\<lparr>microtasks := rest\<rparr>)) i' \<noteq> Queued)"
    using h(2,3,4) first by simp_all
  moreover have "inv_map (callUpdate i (s\<lparr>microtasks := rest\<rparr>))"
    "inv_pred (callUpdate i (s\<lparr>microtasks := rest\<rparr>))"
    "inv_none (callUpdate i (s\<lparr>microtasks := rest\<rparr>))"
    "inv_chain (callUpdate i (s\<lparr>microtasks := rest\<rparr>))"
    "inv_first (callUpdate i (s\<lparr>microtasks := rest\<rparr>))"
    "inv_apply (callUpdate i (s\<lparr>microtasks := rest\<rparr>))"
    "inv_sorted (callUpdate i (s\<lparr>microtasks := rest\<rparr>))"
    "queue_except i (callUpdate i (s\<lparr>microtasks := rest\<rparr>))"
    "log_except i (callUpdate i (s\<lparr>microtasks := rest\<rparr>))"
    by (simp_all add: i h(1) srt l)
  ultimately show "running i (callUpdate i (s\<lparr>microtasks := rest\<rparr>))"
    unfolding running_def by blast
qed

lemma running_started:
  assumes "invariant s" "i < count s" "phase_of s i = AwaitingUpdate \<or> phase_of s i = Applying"
  shows "running i s"
proof -
  from assms(1) have i: "inv_map s" "inv_pred s" "inv_none s" "inv_queue s" "inv_chain s"
    "inv_sorted s" "inv_first s" "inv_log s" "inv_apply s" "inv_deferred s"
    unfolding invariant_def invariant_core_def by blast+
  from assms(3) have nq: "phase_of s i \<noteq> Queued" and ns: "phase_of s i \<noteq> Settled" by auto
  have "\<forall>p. chained_on s i = Some p \<longrightarrow> phase_of s p = Settled"
    using inv_chainD [OF i(5) assms(2) _ nq] by blast
  then show ?thesis
    unfolding running_def
    using assms(2) nq ns i queue_except_started [OF i(4) nq] log_except_started [OF i(8) assms(2) nq]
    by simp
qed

lemma queue_except_settle_deferred [simp]:
  "queue_except j (settle_deferred i r s) = queue_except j s"
  by (simp add: queue_except_def)

lemma running_settle_deferred: "running i (settle_deferred i r s) = running i s"
  unfolding running_def by simp

lemma core_finish:
  assumes "running i s"
  shows "invariant_core (finish i s)"
proof -
  from assms have r: "i < count s" "phase_of s i \<noteq> Settled" "inv_map s" "inv_pred s" "inv_none s"
    "queue_except i s" "inv_chain s" "\<forall>p. chained_on s i = Some p \<longrightarrow> phase_of s p = Settled"
    "inv_sorted s" "inv_first s"
    "phase_of s i = Queued \<longrightarrow>
        (\<forall>i'<i. chained_on s i' = None \<and> chained_on s i = None \<longrightarrow> phase_of s i' \<noteq> Queued)"
    "log_except i s" "inv_apply s"
    unfolding running_def by blast+
  show ?thesis
    unfolding invariant_core_def
    using r(3,4,5,9) inv_queue_finish [OF r(6) r(1,2) r(4) r(7)]
      inv_chain_set_phase [OF r(7) r(1) _ r(8), of Settled]
      inv_first_set_phase [OF r(10) r(1) _ r(11), of Settled]
      inv_log_set_phase [OF r(12) r(1), of Settled]
      inv_apply_set_phase [OF r(13) r(1), of Settled]
    by simp
qed

lemma core_set_phase:
  assumes "running i s" "ph = AwaitingUpdate"
  shows "invariant_core (set_phase i ph s)"
proof -
  from assms have r: "i < count s" "phase_of s i \<noteq> Settled" "inv_map s" "inv_pred s" "inv_none s"
    "queue_except i s" "inv_chain s" "\<forall>p. chained_on s i = Some p \<longrightarrow> phase_of s p = Settled"
    "inv_sorted s" "inv_first s"
    "phase_of s i = Queued \<longrightarrow>
        (\<forall>i'<i. chained_on s i' = None \<and> chained_on s i = None \<longrightarrow> phase_of s i' \<noteq> Queued)"
    "log_except i s" "inv_apply s"
    unfolding running_def by blast+
  show ?thesis
    unfolding invariant_core_def
    using r(3,4,5,9) inv_queue_set_phase [OF r(6) r(1,2), of ph]
      inv_chain_set_phase [OF r(7) r(1) _ r(8), of ph]
      inv_first_set_phase [OF r(10) r(1) _ r(11), of ph]
      inv_log_set_phase [OF r(12) r(1), of ph]
      inv_apply_set_phase [OF r(13) r(1), of ph] r(2) assms(2)
    by simp
qed

lemma core_awaitApplyEdit:
  assumes "running i s" "edit_size (update_of s i) \<noteq> 0"
  shows "invariant_core (awaitApplyEdit i s)"
proof -
  from assms have r: "i < count s" "phase_of s i \<noteq> Settled" "inv_map s" "inv_pred s" "inv_none s"
    "queue_except i s" "inv_chain s" "\<forall>p. chained_on s i = Some p \<longrightarrow> phase_of s p = Settled"
    "inv_sorted s" "inv_first s"
    "phase_of s i = Queued \<longrightarrow>
        (\<forall>i'<i. chained_on s i' = None \<and> chained_on s i = None \<longrightarrow> phase_of s i' \<noteq> Queued)"
    "log_except i s" "inv_apply s"
    unfolding running_def by blast+
  have eq: "inv_map (awaitApplyEdit i s) = inv_map s" "inv_pred (awaitApplyEdit i s) = inv_pred s"
    "inv_none (awaitApplyEdit i s) = inv_none s"
    "inv_queue (awaitApplyEdit i s) = inv_queue (set_phase i Applying s)"
    "inv_chain (awaitApplyEdit i s) = inv_chain (set_phase i Applying s)"
    "inv_sorted (awaitApplyEdit i s) = inv_sorted s"
    "inv_first (awaitApplyEdit i s) = inv_first (set_phase i Applying s)"
    by (simp_all add: awaitApplyEdit_def inv_map_def inv_pred_def inv_none_def inv_queue_def
        inv_chain_def inv_sorted_def inv_first_def settled_def)
  show ?thesis
    unfolding invariant_core_def eq
    using r(3,4,5,9) inv_queue_set_phase [OF r(6) r(1,2), of Applying]
      inv_chain_set_phase [OF r(7) r(1) _ r(8), of Applying]
      inv_first_set_phase [OF r(10) r(1) _ r(11), of Applying]
      inv_log_set_phase [OF r(12) r(1), of Applying]
      inv_apply_awaitApplyEdit [OF r(13) r(1) assms(2)] r(2)
    by simp
qed


lemma invariant_finish:
  assumes "running i s" "inv_deferred s"
  shows "invariant (finish i s)"
proof -
  from assms(1) have "i < count s" unfolding running_def by blast
  from inv_deferred_set_phase [OF assms(2) this, of Settled] core_finish [OF assms(1)]
  show ?thesis unfolding invariant_def by simp
qed

lemma invariant_set_phase:
  assumes "running i s" "inv_deferred s"
  shows "invariant (set_phase i AwaitingUpdate s)"
proof -
  from assms(1) have "i < count s" "phase_of s i \<noteq> Settled" unfolding running_def by blast+
  from inv_deferred_set_phase [OF assms(2) this(1), of AwaitingUpdate] this(2)
    core_set_phase [OF assms(1)]
  show ?thesis unfolding invariant_def by simp
qed

lemma inv_apply_logged:
  assumes "inv_apply s" "i < count s" "edit_size (update_of s i) \<noteq> 0"
  shows "inv_apply (s\<lparr>applyEditCalls := applyEditCalls s @ [i]\<rparr>)"
  using assms unfolding inv_apply_def by auto

lemma inv_deferred_logged:
  assumes "inv_deferred s"
  shows "inv_deferred (s\<lparr>applyEditCalls := applyEditCalls s @ [i]\<rparr>)"
  using assms unfolding inv_deferred_def by auto

lemma logged_frame [simp]:
  "queue_except j (s\<lparr>applyEditCalls := as\<rparr>) = queue_except j s"
  "log_except j (s\<lparr>applyEditCalls := as\<rparr>) = log_except j s"
  by (simp_all add: queue_except_def log_except_def)

lemma running_logged:
  assumes "running i s" "edit_size (update_of s i) \<noteq> 0"
  shows "running i (s\<lparr>applyEditCalls := applyEditCalls s @ [i]\<rparr>)"
proof -
  from assms(1) have i: "i < count s" and a: "inv_apply s" unfolding running_def by blast+
  note l = inv_apply_logged [OF a i assms(2)]
  from assms(1) l show ?thesis unfolding running_def by simp
qed

lemma invariant_throwAtApplyEdit:
  assumes "running i s" "inv_deferred s" "edit_size (update_of s i) \<noteq> 0"
  shows "invariant (throwAtApplyEdit i s)"
  unfolding throwAtApplyEdit_def
  by (rule invariant_finish [OF running_logged [OF assms(1,3)] inv_deferred_logged [OF assms(2)]])

lemma invariant_afterUpdate:
  assumes "running i s" "inv_deferred s"
  shows "invariant (afterUpdate i s)"
proof (cases "edit_size (update_of s i) = 0")
  case True
  with invariant_finish [OF assms] show ?thesis by (simp add: afterUpdate_def)
next
  case False
  show ?thesis
  proof (cases "applyEditThrows s i")
    case True
    with invariant_throwAtApplyEdit [OF assms False] False show ?thesis
      by (simp add: afterUpdate_def callApplyEdit_def)
  next
    case nothrow: False
    from assms(1) have "i < count s" "phase_of s i \<noteq> Settled" unfolding running_def by blast+
    from inv_deferred_awaitApplyEdit [OF assms(2) this] core_awaitApplyEdit [OF assms(1) False]
    have "invariant (awaitApplyEdit i s)" unfolding invariant_def by simp
    with False nothrow show ?thesis by (simp add: afterUpdate_def callApplyEdit_def)
  qed
qed

lemma invariant_host [simp]: "invariant (s\<lparr>applyEditThrows := h\<rparr>) = invariant s"
  by (simp add: invariant_def invariant_core_def inv_map_def inv_pred_def inv_none_def
      inv_queue_def inv_chain_def inv_sorted_def inv_first_def inv_log_def inv_apply_def
      inv_deferred_def settled_def)

lemma invariant_closed [simp]: "invariant (s\<lparr>isClosed := c\<rparr>) = invariant s"
  by (simp add: invariant_def invariant_core_def)

lemma invariant_step:
  assumes "invariant s"
  shows "invariant (step s ev)"
proof (cases ev)
  case (Call k u)
  with invariant_call [OF assms] show ?thesis by simp
next
  case Microtask
  show ?thesis
  proof (cases "microtasks s")
    case Nil
    with Microtask assms show ?thesis by simp
  next
    case (Cons i rest)
    let ?s = "callUpdate i (s\<lparr>microtasks := rest\<rparr>)"
    from assms have "inv_deferred s" unfolding invariant_def by blast
    then have d: "inv_deferred ?s" by simp
    note r = running_head(1) [OF assms Cons]
    have "invariant (runCallback i (s\<lparr>microtasks := rest\<rparr>))"
      unfolding runCallback_def
      using invariant_finish [OF r d] invariant_set_phase [OF r d] invariant_afterUpdate [OF r d]
      by (simp split: callback_result.split)
    with Microtask Cons show ?thesis by simp
  qed
next
  case (UpdateSettles i ok)
  show ?thesis
  proof (cases "i < count s \<and> phase_of s i = AwaitingUpdate")
    case True
    then have r: "running i s" using running_started [OF assms, of i] by blast
    from assms have d: "inv_deferred s" unfolding invariant_def by blast
    from invariant_finish [OF r d] invariant_afterUpdate [OF r d] True UpdateSettles
    show ?thesis by simp
  next
    case False
    with UpdateSettles assms show ?thesis by auto
  qed
next
  case (ApplySettles i r)
  show ?thesis
  proof (cases "i < count s \<and> phase_of s i = Applying")
    case True
    then have "running i s" using running_started [OF assms, of i] by blast
    then have "running i (settle_deferred i r s)" by (simp add: running_settle_deferred)
    note c = core_finish [OF this]
    from assms have "inv_deferred s" "inv_apply s"
      unfolding invariant_def invariant_core_def by blast+
    from inv_deferred_settle [OF this, of i r] True c ApplySettles
    show ?thesis unfolding invariant_def by simp
  next
    case False
    with ApplySettles assms show ?thesis by auto
  qed
next
  case (Close d)
  with assms show ?thesis by simp
next
  case (HostThrows i)
  with assms show ?thesis by simp
qed

lemma run_snoc: "run (evs @ [ev]) = step (run evs) ev"
  by (simp add: run_def)

lemma invariant_run: "invariant (run evs)"
proof (induction evs rule: rev_induct)
  case Nil
  show ?case by (simp add: run_def invariant_loaded)
next
  case (snoc ev evs)
  then show ?case by (simp add: run_snoc invariant_step)
qed

subsection \<open>Whatever is pending can settle\<close>

lemma sum_list_map_update:
  fixes f :: "'a \<Rightarrow> nat"
  shows "i < length xs \<Longrightarrow>
           sum_list (map f (xs[i := y])) + f (xs ! i) = sum_list (map f xs) + f y"
proof (induction xs arbitrary: i)
  case Nil
  then show ?case by simp
next
  case (Cons x xs)
  then show ?case by (cases i) auto
qed

lemma work_set_phase:
  assumes "i < count s"
  shows "work (set_phase i ph s) + weight (phase_of s i) = work s + weight ph"
  using sum_list_map_update [OF assms, of "\<lambda>op. weight (phase op)" "(operations s ! i)\<lparr>phase := ph\<rparr>"]
  by (simp add: work_def set_phase_def)

lemma work_frame [simp]:
  "work (finish i s) = work (set_phase i Settled s)"
  "work (awaitApplyEdit i s) = work (set_phase i Applying s)"
  "work (callUpdate i s) = work s"
  "work (s\<lparr>microtasks := ms\<rparr>) = work s"
  by (simp_all add: work_def finish_def awaitApplyEdit_def)

lemma work_settle_deferred [simp]: "work (settle_deferred i r s) = work s"
proof -
  have "map (\<lambda>op. weight (phase op)) (operations (settle_deferred i r s)) =
        map (\<lambda>op. weight (phase op)) (operations s)"
    by (rule nth_equalityI) simp_all
  then show ?thesis by (simp add: work_def)
qed

lemma work_bound: "work s \<le> 3 * count s"
proof -
  have "\<And>xs :: operation list. sum_list (map (\<lambda>op. weight (phase op)) xs) \<le> 3 * length xs"
  proof -
    fix xs :: "operation list"
    show "sum_list (map (\<lambda>op. weight (phase op)) xs) \<le> 3 * length xs"
    proof (induction xs)
      case Nil
      show ?case by simp
    next
      case (Cons x xs)
      have "weight (phase x) \<le> 3" by (cases "phase x") simp_all
      with Cons show ?case by simp
    qed
  qed
  then show ?thesis by (simp add: work_def)
qed


lemma work_callApplyEdit [simp]:
  "work (callApplyEdit i s) =
     (if applyEditThrows s i then work (set_phase i Settled s) else work (set_phase i Applying s))"
proof (cases "applyEditThrows s i")
  case True
  have "work (throwAtApplyEdit i s) =
        work (set_phase i Settled (s\<lparr>applyEditCalls := applyEditCalls s @ [i]\<rparr>))"
    by (simp add: throwAtApplyEdit_def)
  also have "\<dots> = work (set_phase i Settled s)"
    by (simp add: set_phase_def work_def)
  finally show ?thesis using True by (simp add: callApplyEdit_def)
next
  case False
  then show ?thesis by (simp add: callApplyEdit_def)
qed

lemma work_decreases:
  assumes "i < count s" "weight ph < weight (phase_of s i)"
  shows "work (set_phase i ph s) < work s"
  using work_set_phase [OF assms(1), of ph] assms(2) by simp

lemma step_progress:
  assumes "invariant s" "next_event f a s = Some ev"
  shows "work (step s ev) < work s" and "count (step s ev) = count s"
proof -
  have "work (step s ev) < work s \<and> count (step s ev) = count s"
  proof (cases "microtasks s")
    case (Cons i rest)
    with assms(2) have ev: "ev = Microtask" by (simp add: next_event_def)
    from assms(1) have "inv_queue s" unfolding invariant_def invariant_core_def by blast
    note h = queue_except_head [OF this Cons]
    let ?s = "callUpdate i (s\<lparr>microtasks := rest\<rparr>)"
    have i: "i < count ?s" "phase_of ?s i = Queued" "work ?s = work s" using h by simp_all
    have "work (set_phase i ph ?s) < work s" if "ph \<noteq> Queued" for ph
      using work_decreases [OF i(1), of ph] i(2,3) that by (cases ph) simp_all
    then have "work (runCallback i (s\<lparr>microtasks := rest\<rparr>)) < work s"
      by (simp add: runCallback_def afterUpdate_def split: callback_result.split)
    moreover have "count (runCallback i (s\<lparr>microtasks := rest\<rparr>)) = count s"
      by (simp add: runCallback_def afterUpdate_def split: callback_result.split)
    ultimately show ?thesis using ev Cons by simp
  next
    case Nil
    with assms(2) obtain j where
      f: "find (\<lambda>j. phase_of s j = AwaitingUpdate \<or> phase_of s j = Applying) [0..<count s] = Some j"
      and ev: "ev = (if phase_of s j = AwaitingUpdate then UpdateSettles j (f j)
                     else ApplySettles j (a j))"
      by (auto simp: next_event_def split: option.splits)
    from f have j: "j < count s" "phase_of s j = AwaitingUpdate \<or> phase_of s j = Applying"
      by (auto simp: find_Some_iff)
    show ?thesis
    proof (cases "phase_of s j = AwaitingUpdate")
      case True
      have "work (set_phase j ph s) < work s" if "ph = Applying \<or> ph = Settled" for ph
        using work_decreases [OF j(1), of ph] True that by auto
      with ev True j(1) show ?thesis
        by (simp add: afterUpdate_def)
    next
      case False
      with j(2) have ap: "phase_of s j = Applying" by simp
      have "work (set_phase j Settled (settle_deferred j (a j) s)) < work s"
        using work_decreases [of j "settle_deferred j (a j) s" Settled] j(1) ap by simp
      with ev ap j(1) show ?thesis by simp
    qed
  qed
  then show "work (step s ev) < work s" and "count (step s ev) = count s" by simp_all
qed

lemma quiescent:
  assumes "invariant s" "next_event f a s = None"
  shows "j < count s \<Longrightarrow> phase_of s j = Settled"
proof (induction j rule: less_induct)
  case (less j)
  from assms(2) have empty: "microtasks s = []"
    and none: "find (\<lambda>j. phase_of s j = AwaitingUpdate \<or> phase_of s j = Applying) [0..<count s] = None"
    by (auto simp: next_event_def split: if_splits option.splits)
  from none less.prems have idle: "phase_of s j \<noteq> AwaitingUpdate" "phase_of s j \<noteq> Applying"
    by (auto simp: find_None_iff)
  from assms(1) have q: "inv_queue s" and p: "inv_pred s"
    unfolding invariant_def invariant_core_def by blast+
  have "phase_of s j \<noteq> Queued"
  proof
    assume queued: "phase_of s j = Queued"
    have "\<forall>p. chained_on s j = Some p \<longrightarrow> settled s p"
    proof (intro allI impI)
      fix p assume c: "chained_on s j = Some p"
      from inv_predD(1) [OF p less.prems c] have "p < j" .
      with less.IH [OF this] less.prems show "settled s p" by (simp add: settled_def)
    qed
    with queued less.prems q have "j \<in> set (microtasks s)" unfolding inv_queue_def by blast
    with empty show False by simp
  qed
  with idle show ?case by (cases "phase_of s j") simp_all
qed

lemma settle_all_settles:
  assumes "invariant s" "work s \<le> n"
  shows "invariant (settle_all f a n s) \<and> count (settle_all f a n s) = count s \<and>
         (\<forall>j<count s. phase_of (settle_all f a n s) j = Settled)"
  using assms
proof (induction n arbitrary: s)
  case 0
  have "next_event f a s = None"
  proof (cases "next_event f a s")
    case (Some ev)
    from step_progress(1) [OF "0.prems"(1) Some] "0.prems"(2) show ?thesis by simp
  qed simp
  with quiescent [OF "0.prems"(1) this] "0.prems"(1) show ?case by simp
next
  case (Suc n)
  show ?case
  proof (cases "next_event f a s")
    case None
    with quiescent [OF Suc.prems(1) None] Suc.prems(1) show ?thesis by simp
  next
    case (Some ev)
    note pr = step_progress [OF Suc.prems(1) Some]
    from pr(1) Suc.prems(2) have "work (step s ev) \<le> n" by simp
    from Suc.IH [OF invariant_step [OF Suc.prems(1)] this] pr(2) Some
    show ?thesis by simp
  qed
qed

lemma everything_runs:
  assumes "invariant s" "j < count s"
  shows "phase_of (settle_all f a (3 * count s) s) j = Settled"
    and "j \<in> set (updateCalls (settle_all f a (3 * count s) s))"
proof -
  let ?s = "settle_all f a (3 * count s) s"
  from settle_all_settles [OF assms(1) work_bound, of f a]
  have i: "invariant ?s" and c: "count ?s = count s" and p: "\<forall>j<count s. phase_of ?s j = Settled"
    by blast+
  from p assms(2) show "phase_of ?s j = Settled" by blast
  moreover from i have "set (updateCalls ?s) = {j. j < count ?s \<and> phase_of ?s j \<noteq> Queued}"
    unfolding invariant_def invariant_core_def inv_log_def by blast
  ultimately show "j \<in> set (updateCalls ?s)" using c assms(2) by simp
qed

subsection \<open>Facts about every run\<close>

lemmas chain_defs = run_def loaded_def chainWithPendingUpdates_def enqueue_def settled_def
  runCallback_def afterUpdate_def finish_def set_phase_def settle_deferred_def callUpdate_def
  callApplyEdit_def awaitApplyEdit_def throwAtApplyEdit_def

lemma step_keeps:
  assumes "j < count s"
  shows "j < count (step s ev) \<and> update_of (step s ev) j = update_of s j \<and>
         target (step s ev) j = target s j \<and> chained_on (step s ev) j = chained_on s j"
proof (cases ev)
  case (Call k u)
  with assms show ?thesis
    by (auto simp: chainWithPendingUpdates_def split: option.splits)
next
  case Microtask
  with assms show ?thesis
    by (auto simp: runCallback_def afterUpdate_def split: list.splits callback_result.splits)
next
  case (UpdateSettles i ok)
  with assms show ?thesis by (auto simp: afterUpdate_def)
next
  case (ApplySettles i r)
  with assms show ?thesis by auto
next
  case (Close d)
  with assms show ?thesis by simp
next
  case (HostThrows i)
  with assms show ?thesis by simp
qed

lemma run_append: "run (pre @ evs) = foldl step (run pre) evs"
  by (simp add: run_def)

lemma foldl_step_keeps:
  "j < count s \<Longrightarrow> j < count (foldl step s evs) \<and>
     update_of (foldl step s evs) j = update_of s j \<and>
     target (foldl step s evs) j = target s j \<and>
     chained_on (foldl step s evs) j = chained_on s j"
proof (induction evs arbitrary: s)
  case Nil
  then show ?case by simp
next
  case (Cons ev evs)
  from step_keeps [OF Cons.prems, of ev] Cons.IH [of "step s ev"] show ?case by simp
qed

lemma no_edits_stays_pending:
  assumes "i < count (run evs)" "edit_size (update_of (run evs) i) = 0"
  shows "deferred_of (run evs) i = Pending" and "i \<notin> set (applyEditCalls (run evs))"
    and "phase_of (run evs) i \<noteq> Applying"
proof -
  have "inv_deferred (run evs)" "inv_apply (run evs)"
    using invariant_run [of evs] unfolding invariant_def invariant_core_def by blast+
  then have d: "deferred_of (run evs) i \<noteq> Pending \<Longrightarrow> i \<in> set (applyEditCalls (run evs))"
    and a: "i \<in> set (applyEditCalls (run evs)) \<Longrightarrow> edit_size (update_of (run evs) i) \<noteq> 0"
    and p: "phase_of (run evs) i = Applying \<Longrightarrow> i \<in> set (applyEditCalls (run evs))"
    using assms(1) unfolding inv_deferred_def inv_apply_def by blast+
  from a assms(2) show "i \<notin> set (applyEditCalls (run evs))" by blast
  with d show "deferred_of (run evs) i = Pending" by blast
  from p \<open>i \<notin> set (applyEditCalls (run evs))\<close> show "phase_of (run evs) i \<noteq> Applying" by blast
qed

lemma step_keeps_entries:
  "pendingCellUpdates s k \<noteq> None \<Longrightarrow> pendingCellUpdates (step s ev) k \<noteq> None"
proof (cases ev)
  case (Call k' u)
  assume "pendingCellUpdates s k \<noteq> None"
  with Call show ?thesis
    by (auto simp: chainWithPendingUpdates_def split: option.splits)
next
  case Microtask
  assume "pendingCellUpdates s k \<noteq> None"
  with Microtask show ?thesis
    by (auto simp: runCallback_def afterUpdate_def split: list.splits callback_result.splits)
next
  case (UpdateSettles i ok)
  assume "pendingCellUpdates s k \<noteq> None"
  with UpdateSettles show ?thesis by (auto simp: afterUpdate_def)
next
  case (ApplySettles i r)
  assume "pendingCellUpdates s k \<noteq> None"
  with ApplySettles show ?thesis by auto
next
  case (Close d)
  assume "pendingCellUpdates s k \<noteq> None"
  with Close show ?thesis by simp
next
  case (HostThrows i)
  assume "pendingCellUpdates s k \<noteq> None"
  with HostThrows show ?thesis by simp
qed

lemma settle_all_unfold:
  "settle_all f a n s =
     (if n = 0 then s
      else case next_event f a s of None \<Rightarrow> s | Some ev \<Rightarrow> settle_all f a (n - 1) (step s ev))"
  by (cases n) (simp_all split: option.split)

lemma document_updates_are_serial:
  assumes "i < j" "j < count (run evs)" "target (run evs) i = Document d"
    "target (run evs) j = Document d" "phase_of (run evs) j \<noteq> Queued"
  shows "phase_of (run evs) i = Settled"
proof -
  have "inv_pred (run evs)" "inv_none (run evs)" "inv_chain (run evs)"
    using invariant_run [of evs] unfolding invariant_def invariant_core_def by blast+
  from document_serial [OF this assms] show ?thesis .
qed

text \<open>
  The promise a call returns is the \<open>deferred\<close> of the operation that this call has
  enqueued: its index is the number of operations enqueued before, so no two calls return the
  same promise.
\<close>

lemma call_returns_own_deferred:
  assumes "\<not> isClosed s (notebook k)" "fst (chainWithPendingUpdates k u s) \<noteq> ThrowTypeError"
  shows "fst (chainWithPendingUpdates k u s) = ReturnDeferred (count s)"
    and "count (snd (chainWithPendingUpdates k u s)) = Suc (count s)"
    and "target (snd (chainWithPendingUpdates k u s)) (count s) = k"
    and "update_of (snd (chainWithPendingUpdates k u s)) (count s) = u"
    and "deferred_of (snd (chainWithPendingUpdates k u s)) (count s) = Pending"
  using assms
  by (auto simp: chainWithPendingUpdates_def split: option.splits if_splits)

lemma call_returns:
  "fst (chainWithPendingUpdates k u s) = ReturnTrue \<or>
   fst (chainWithPendingUpdates k u s) = ThrowTypeError \<or>
   (fst (chainWithPendingUpdates k u s) = ReturnDeferred (count s) \<and>
    count (snd (chainWithPendingUpdates k u s)) = Suc (count s))"
  by (auto simp: chainWithPendingUpdates_def split: option.splits)

lemma count_grows: "count s \<le> count (foldl step s evs)"
proof (cases "count s")
  case 0
  then show ?thesis by simp
next
  case (Suc n)
  then have "n < count s" by simp
  from foldl_step_keeps [OF this, of evs] Suc show ?thesis by simp
qed

lemma step_keeps_settled:
  assumes "invariant s" "j < count s" "phase_of s j = Settled"
  shows "phase_of (step s ev) j = Settled \<and> deferred_of (step s ev) j = deferred_of s j"
proof (cases ev)
  case (Call k u)
  with assms(2,3) show ?thesis
    by (auto simp: chainWithPendingUpdates_def split: option.splits)
next
  case Microtask
  show ?thesis
  proof (cases "microtasks s")
    case Nil
    with Microtask assms(3) show ?thesis by simp
  next
    case (Cons i rest)
    from assms(1) have "inv_queue s" unfolding invariant_def invariant_core_def by blast
    from queue_except_head(3) [OF this Cons] assms(3) have "j \<noteq> i" by auto
    with Microtask Cons assms(3) show ?thesis
      by (simp add: runCallback_def afterUpdate_def callApplyEdit_def throwAtApplyEdit_def
          split: callback_result.split)
  qed
next
  case (UpdateSettles i ok)
  with assms(3) show ?thesis
    by (cases "j = i")
      (auto simp: afterUpdate_def callApplyEdit_def throwAtApplyEdit_def)
next
  case (ApplySettles i r)
  with assms(3) show ?thesis by (cases "j = i") auto
next
  case (Close d)
  with assms(3) show ?thesis by simp
next
  case (HostThrows i)
  with assms(3) show ?thesis by simp
qed

lemma foldl_step_keeps_settled:
  "invariant s \<Longrightarrow> j < count s \<Longrightarrow> phase_of s j = Settled \<Longrightarrow>
     deferred_of (foldl step s evs) j = deferred_of s j"
proof (induction evs arbitrary: s)
  case Nil
  show ?case by simp
next
  case (Cons ev evs)
  from step_keeps_settled [OF Cons.prems, of ev] step_keeps [OF Cons.prems(2), of ev]
    invariant_step [OF Cons.prems(1), of ev]
  have "invariant (step s ev)" "j < count (step s ev)" "phase_of (step s ev) j = Settled"
    "deferred_of (step s ev) j = deferred_of s j" by simp_all
  with Cons.IH [of "step s ev"] show ?case by simp
qed

text \<open>
  When the promise returned by \<open>applyEdit\<close> settles, it is the promise returned by the call
  that enqueued the operation which is rejected or resolved, with the failure or the result
  of the host; every other returned promise is what it was, and no earlier and no later call
  has returned the same promise.
\<close>

lemma rejection_reaches_its_caller:
  assumes "\<not> isClosed (run pre) (notebook k)"
    and "fst (chainWithPendingUpdates k u (run pre)) \<noteq> ThrowTypeError"
    and "phase_of (run (pre @ Call k u # evs)) (count (run pre)) = Applying"
  shows "promise_of (step (run (pre @ Call k u # evs)) (ApplySettles (count (run pre)) (Inl ex)))
            (fst (chainWithPendingUpdates k u (run pre))) = Rejected ex"
    and "promise_of (step (run (pre @ Call k u # evs)) (ApplySettles (count (run pre)) (Inr b)))
            (fst (chainWithPendingUpdates k u (run pre))) = Fulfilled b"
    and "r \<noteq> fst (chainWithPendingUpdates k u (run pre)) \<Longrightarrow>
         promise_of (step (run (pre @ Call k u # evs)) (ApplySettles (count (run pre)) (Inl ex))) r =
         promise_of (run (pre @ Call k u # evs)) r"
    and "fst (chainWithPendingUpdates k' u' (run (pre @ Call k u # later))) \<noteq>
         fst (chainWithPendingUpdates k u (run pre))"
    and "pre = before @ Call k' u' # between \<Longrightarrow>
         fst (chainWithPendingUpdates k' u' (run before)) \<noteq>
         fst (chainWithPendingUpdates k u (run pre))"
proof -
  let ?n = "count (run pre)"
  let ?t = "run (pre @ Call k u # evs)"
  note own = call_returns_own_deferred [OF assms(1,2)]
  have t: "?t = foldl step (snd (chainWithPendingUpdates k u (run pre))) evs"
    by (simp add: run_def)
  have n: "?n < count ?t"
    unfolding t using count_grows [of "snd (chainWithPendingUpdates k u (run pre))" evs] own(2)
    by simp
  from n assms(3)
  have st: "step ?t (ApplySettles ?n (Inl ex)) = finish ?n (settle_deferred ?n (Inl ex) ?t)"
    "step ?t (ApplySettles ?n (Inr b)) = finish ?n (settle_deferred ?n (Inr b) ?t)"
    by simp_all
  show "promise_of (step ?t (ApplySettles ?n (Inl ex))) (fst (chainWithPendingUpdates k u (run pre))) =
          Rejected ex"
    unfolding st own(1) using n by simp
  show "promise_of (step ?t (ApplySettles ?n (Inr b))) (fst (chainWithPendingUpdates k u (run pre))) =
          Fulfilled b"
    unfolding st own(1) using n by simp
  show "promise_of (step ?t (ApplySettles ?n (Inl ex))) r = promise_of ?t r"
    if "r \<noteq> fst (chainWithPendingUpdates k u (run pre))"
    using that unfolding st own(1) by (cases r) simp_all
  show "fst (chainWithPendingUpdates k' u' (run (pre @ Call k u # later))) \<noteq>
         fst (chainWithPendingUpdates k u (run pre))"
  proof -
    have "run (pre @ Call k u # later) = foldl step (snd (chainWithPendingUpdates k u (run pre))) later"
      by (simp add: run_def)
    with count_grows [of "snd (chainWithPendingUpdates k u (run pre))" later] own(2)
    have "?n < count (run (pre @ Call k u # later))" by simp
    with call_returns [of k' u' "run (pre @ Call k u # later)"] own(1) show ?thesis by auto
  qed
  show "fst (chainWithPendingUpdates k' u' (run before)) \<noteq>
         fst (chainWithPendingUpdates k u (run pre))"
    if "pre = before @ Call k' u' # between"
  proof -
    from that have "run pre = foldl step (snd (chainWithPendingUpdates k' u' (run before))) between"
      by (simp add: run_def)
    with count_grows [of "snd (chainWithPendingUpdates k' u' (run before))" between]
    have "count (snd (chainWithPendingUpdates k' u' (run before))) \<le> ?n" by simp
    with call_returns [of k' u' "run before"] own(1) show ?thesis by auto
  qed
qed

text \<open>
  A rejection of \<open>applyEdit\<close> leaves the queue of ready reactions and the phases of all
  operations as a success does, so the operation chained on the failed one is queued; and in
  every continuation \<open>update\<close> of every operation that was called has been called once
  everything pending has settled.
\<close>

lemma applyEdit_rejection_is_local:
  "i < count (run evs) \<and> phase_of (run evs) i = Applying \<Longrightarrow>
     promise_of (step (run evs) (ApplySettles i (Inl ex))) (ReturnDeferred i) = Rejected ex \<and>
     (\<forall>j. j \<noteq> i \<longrightarrow>
        deferred_of (step (run evs) (ApplySettles i (Inl ex))) j = deferred_of (run evs) j) \<and>
     microtasks (step (run evs) (ApplySettles i (Inl ex))) =
        microtasks (step (run evs) (ApplySettles i (Inr b))) \<and>
     (\<forall>j. phase_of (step (run evs) (ApplySettles i (Inl ex))) j =
          phase_of (step (run evs) (ApplySettles i (Inr b))) j) \<and>
     (\<forall>j<count (run evs). chained_on (run evs) j = Some i \<longrightarrow>
        j \<in> set (microtasks (step (run evs) (ApplySettles i (Inl ex))))) \<and>
     (\<forall>j<count (run (evs @ ApplySettles i (Inl ex) # evs')).
        j \<in> set (updateCalls
          (settle_all fulfils answer (3 * count (run (evs @ ApplySettles i (Inl ex) # evs')))
             (run (evs @ ApplySettles i (Inl ex) # evs')))))"
proof -
  assume h: "i < count (run evs) \<and> phase_of (run evs) i = Applying"
  let ?s = "run evs"
  from h have st: "step ?s (ApplySettles i (Inl ex)) = finish i (settle_deferred i (Inl ex) ?s)"
    "step ?s (ApplySettles i (Inr b)) = finish i (settle_deferred i (Inr b) ?s)"
    by simp_all
  have a: "promise_of (step ?s (ApplySettles i (Inl ex))) (ReturnDeferred i) = Rejected ex"
    unfolding st using h by simp
  have b: "\<forall>j. j \<noteq> i \<longrightarrow> deferred_of (step ?s (ApplySettles i (Inl ex))) j = deferred_of ?s j"
    unfolding st by simp
  have c: "microtasks (step ?s (ApplySettles i (Inl ex))) =
        microtasks (step ?s (ApplySettles i (Inr b)))"
    unfolding st by simp
  have d: "\<forall>j. phase_of (step ?s (ApplySettles i (Inl ex))) j =
          phase_of (step ?s (ApplySettles i (Inr b))) j"
  proof
    fix j show "phase_of (step ?s (ApplySettles i (Inl ex))) j =
          phase_of (step ?s (ApplySettles i (Inr b))) j"
      unfolding st using h by (cases "j = i") simp_all
  qed
  have e: "\<forall>j<count ?s. chained_on ?s j = Some i \<longrightarrow>
        j \<in> set (microtasks (step ?s (ApplySettles i (Inl ex))))"
    unfolding st by simp
  have f: "\<forall>j<count (run (evs @ ApplySettles i (Inl ex) # evs')).
        j \<in> set (updateCalls
          (settle_all fulfils answer (3 * count (run (evs @ ApplySettles i (Inl ex) # evs')))
             (run (evs @ ApplySettles i (Inl ex) # evs'))))"
    using everything_runs(2) [OF invariant_run] by blast
  from a b c d e f show ?thesis by blast
qed

text \<open>
  For an operation whose \<open>update\<close> leaves the edit empty, \<open>applyEdit\<close> is never called.
  The \<open>update\<close> callbacks of the operations of one key are started in the order of the
  calls; an operation chained on the empty one, and on a document key every later operation
  of that key, starts only after the empty one has settled.
\<close>

lemma no_edits_keeps_the_chain:
  "i < count (run evs) \<and> edit_size (update_of (run evs) i) = 0 \<Longrightarrow>
     i \<notin> set (applyEditCalls (run evs)) \<and> phase_of (run evs) i \<noteq> Applying \<and>
     (\<forall>k. sorted_wrt (<) (filter (\<lambda>j. target (run evs) j = k) (updateCalls (run evs)))) \<and>
     (\<forall>j<count (run evs). chained_on (run evs) j = Some i \<and> j \<in> set (updateCalls (run evs)) \<longrightarrow>
        phase_of (run evs) i = Settled) \<and>
     (\<forall>j<count (run evs). i < j \<and> target (run evs) j = target (run evs) i \<and>
        target (run evs) i = Document d \<and> j \<in> set (updateCalls (run evs)) \<longrightarrow>
        phase_of (run evs) i = Settled) \<and>
     (\<forall>j<count (run evs).
        j \<in> set (updateCalls (settle_all fulfils answer (3 * count (run evs)) (run evs))))"
proof -
  assume h: "i < count (run evs) \<and> edit_size (update_of (run evs) i) = 0"
  let ?s = "run evs"
  have inv: "inv_log ?s" "inv_chain ?s"
    using invariant_run [of evs] unfolding invariant_def invariant_core_def by blast+
  from h no_edits_stays_pending(2,3) [of i evs]
  have a: "i \<notin> set (applyEditCalls ?s)" "phase_of ?s i \<noteq> Applying" by blast+
  from inv(1) have b: "\<forall>k. sorted_wrt (<) (filter (\<lambda>j. target ?s j = k) (updateCalls ?s))"
    and log: "set (updateCalls ?s) = {j. j < count ?s \<and> phase_of ?s j \<noteq> Queued}"
    unfolding inv_log_def by blast+
  have c: "\<forall>j<count ?s. chained_on ?s j = Some i \<and> j \<in> set (updateCalls ?s) \<longrightarrow>
        phase_of ?s i = Settled"
    using inv_chainD [OF inv(2)] log by blast
  have d: "\<forall>j<count ?s. j \<in> set (updateCalls (settle_all fulfils answer (3 * count ?s) ?s))"
    using everything_runs(2) [OF invariant_run] by blast
  have e: "\<forall>j<count ?s. i < j \<and> target ?s j = target ?s i \<and> target ?s i = Document d \<and>
        j \<in> set (updateCalls ?s) \<longrightarrow> phase_of ?s i = Settled"
  proof (intro allI impI)
    fix j assume j: "j < count ?s"
      and h: "i < j \<and> target ?s j = target ?s i \<and> target ?s i = Document d \<and>
        j \<in> set (updateCalls ?s)"
    from h log have "phase_of ?s j \<noteq> Queued" by blast
    with document_updates_are_serial [of i j evs d] j h show "phase_of ?s i = Settled" by simp
  qed
  from a b c d e show ?thesis by blast
qed


subsection \<open>The claims about the chain\<close>

text \<open>
  Claim C1 (at most one operation of a key is in flight, and the others are applied in the
  order of their calls, each after the one before it has settled) does not hold for the code
  on a cell key. Two calls on one cell of a notebook whose document has no entry are both
  chained on \<open>Promise.resolve()\<close>, since the map is asked for the document and read for the
  cell: after the two reactions have run, both \<open>applyEdit\<close> calls are pending together.
  When the first \<open>update\<close> returns a promise, the edit of the second call is applied first.
  Once the document has an entry, a call on a cell that has none throws a \<open>TypeError\<close>. On
  a document key the claim holds (\<open>document_updates_are_serial\<close>).
\<close>

theorem two_applies_in_flight_on_one_cell:
  "target (run [Call (Cell 0 0) \<lparr>result = ReturnsVoid, edit_size = 1\<rparr>,
                Call (Cell 0 0) \<lparr>result = ReturnsVoid, edit_size = 1\<rparr>,
                Microtask, Microtask]) 0 = Cell 0 0 \<and>
   target (run [Call (Cell 0 0) \<lparr>result = ReturnsVoid, edit_size = 1\<rparr>,
                Call (Cell 0 0) \<lparr>result = ReturnsVoid, edit_size = 1\<rparr>,
                Microtask, Microtask]) 1 = Cell 0 0 \<and>
   phase_of (run [Call (Cell 0 0) \<lparr>result = ReturnsVoid, edit_size = 1\<rparr>,
                  Call (Cell 0 0) \<lparr>result = ReturnsVoid, edit_size = 1\<rparr>,
                  Microtask, Microtask]) 0 = Applying \<and>
   phase_of (run [Call (Cell 0 0) \<lparr>result = ReturnsVoid, edit_size = 1\<rparr>,
                  Call (Cell 0 0) \<lparr>result = ReturnsVoid, edit_size = 1\<rparr>,
                  Microtask, Microtask]) 1 = Applying \<and>
   applyEditCalls (run [Call (Cell 0 0) \<lparr>result = ReturnsVoid, edit_size = 1\<rparr>,
                  Call (Cell 0 0) \<lparr>result = ReturnsVoid, edit_size = 1\<rparr>,
                  Microtask, Microtask]) = [0, 1] \<and>
   applyEditCalls (run [Call (Cell 0 0) \<lparr>result = ReturnsPromise, edit_size = 1\<rparr>,
                  Call (Cell 0 0) \<lparr>result = ReturnsVoid, edit_size = 1\<rparr>,
                  Microtask, Microtask, UpdateSettles 0 True]) = [1, 0] \<and>
   fst (chainWithPendingUpdates (Cell 0 0) \<lparr>result = ReturnsVoid, edit_size = 1\<rparr>
          (run [Call (Document 0) \<lparr>result = ReturnsVoid, edit_size = 1\<rparr>])) = ThrowTypeError"
  by (simp add: chain_defs)

text \<open>
  Claim C2 (a failure of \<open>applyEdit\<close> is reported to the caller of that operation, whose
  returned promise rejects with the failure, and to nobody else, and the operations queued
  after it still run) does not hold for the code when the call of \<open>applyEdit\<close> itself
  throws. The failure is then raised inside the \<open>finally\<close> callback before the two
  handlers that settle \<open>deferred\<close> are attached, and \<open>.catch(noop)\<close> swallows it: the
  promise that the call has returned is pending when the callback has ended, and it is still
  pending after every continuation. When the promise returned by \<open>applyEdit\<close> rejects
  instead, the promise returned by the call rejects with the failure
  (\<open>rejection_reaches_its_caller\<close>). On both paths the operation queued behind the failed
  one runs.
\<close>

theorem applyEdit_throw_is_reported_to_nobody:
  "fst (chainWithPendingUpdates (Document 0) \<lparr>result = ReturnsVoid, edit_size = 1\<rparr> loaded) =
      ReturnDeferred 0 \<and>
   fst (chainWithPendingUpdates (Document 0) \<lparr>result = ReturnsVoid, edit_size = 1\<rparr>
            (run [Call (Document 0) \<lparr>result = ReturnsVoid, edit_size = 1\<rparr>])) = ReturnDeferred 1 \<and>
   updateCalls (run [Call (Document 0) \<lparr>result = ReturnsVoid, edit_size = 1\<rparr>,
                     Call (Document 0) \<lparr>result = ReturnsVoid, edit_size = 1\<rparr>,
                     HostThrows 1, Microtask, ApplySettles 0 (Inr True), Microtask]) = [0, 1] \<and>
   applyEditCalls (run [Call (Document 0) \<lparr>result = ReturnsVoid, edit_size = 1\<rparr>,
                     Call (Document 0) \<lparr>result = ReturnsVoid, edit_size = 1\<rparr>,
                     HostThrows 1, Microtask, ApplySettles 0 (Inr True), Microtask]) = [0, 1] \<and>
   phase_of (run [Call (Document 0) \<lparr>result = ReturnsVoid, edit_size = 1\<rparr>,
                     Call (Document 0) \<lparr>result = ReturnsVoid, edit_size = 1\<rparr>,
                     HostThrows 1, Microtask, ApplySettles 0 (Inr True), Microtask]) 1 = Settled \<and>
   promise_of (run [Call (Document 0) \<lparr>result = ReturnsVoid, edit_size = 1\<rparr>,
                     Call (Document 0) \<lparr>result = ReturnsVoid, edit_size = 1\<rparr>,
                     HostThrows 1, Microtask, ApplySettles 0 (Inr True), Microtask])
      (fst (chainWithPendingUpdates (Document 0) \<lparr>result = ReturnsVoid, edit_size = 1\<rparr> loaded)) =
      Fulfilled True \<and>
   promise_of (run (Call (Document 0) \<lparr>result = ReturnsVoid, edit_size = 1\<rparr> #
                    Call (Document 0) \<lparr>result = ReturnsVoid, edit_size = 1\<rparr> #
                    HostThrows 1 # Microtask # ApplySettles 0 (Inr True) # Microtask # evs))
      (fst (chainWithPendingUpdates (Document 0) \<lparr>result = ReturnsVoid, edit_size = 1\<rparr>
            (run [Call (Document 0) \<lparr>result = ReturnsVoid, edit_size = 1\<rparr>]))) = Pending \<and>
   promise_of (run [Call (Document 0) \<lparr>result = ReturnsVoid, edit_size = 1\<rparr>,
                    Call (Document 0) \<lparr>result = ReturnsVoid, edit_size = 1\<rparr>,
                    Microtask, ApplySettles 0 (Inr True), Microtask,
                    ApplySettles 1 (Inl (HostError ''disk''))])
      (fst (chainWithPendingUpdates (Document 0) \<lparr>result = ReturnsVoid, edit_size = 1\<rparr>
            (run [Call (Document 0) \<lparr>result = ReturnsVoid, edit_size = 1\<rparr>]))) =
      Rejected (HostError ''disk'') \<and>
   applyEditCalls (run [Call (Document 0) \<lparr>result = ReturnsVoid, edit_size = 1\<rparr>,
                        Call (Document 0) \<lparr>result = ReturnsVoid, edit_size = 1\<rparr>,
                        Call (Document 0) \<lparr>result = ReturnsVoid, edit_size = 1\<rparr>,
                        HostThrows 1, Microtask, ApplySettles 0 (Inr True), Microtask,
                        Microtask]) = [0, 1, 2]"
proof -
  let ?u = "\<lparr>result = ReturnsVoid, edit_size = 1\<rparr>"
  let ?c = "Call (Document 0) ?u"
  let ?pre = "[?c, ?c, HostThrows 1, Microtask, ApplySettles 0 (Inr True), Microtask]"
  have a: "fst (chainWithPendingUpdates (Document 0) ?u loaded) = ReturnDeferred 0"
    "fst (chainWithPendingUpdates (Document 0) ?u (run [?c])) = ReturnDeferred 1"
    by (simp_all add: chain_defs)
  have b: "updateCalls (run ?pre) = [0, 1]" "applyEditCalls (run ?pre) = [0, 1]"
    "phase_of (run ?pre) 1 = Settled" "deferred_of (run ?pre) 0 = Fulfilled True"
    by (simp_all add: chain_defs)
  have c: "1 < count (run ?pre)" "deferred_of (run ?pre) 1 = Pending"
    by (simp_all add: chain_defs)
  have eq: "run (?c # ?c # HostThrows 1 # Microtask # ApplySettles 0 (Inr True) # Microtask # evs) =
      foldl step (run ?pre) evs"
    by (simp add: run_def)
  from foldl_step_keeps_settled [OF invariant_run c(1) b(3), of evs] c(2)
  have "deferred_of (foldl step (run ?pre) evs) 1 = Pending" by simp
  then have d: "deferred_of
      (run (?c # ?c # HostThrows 1 # Microtask # ApplySettles 0 (Inr True) # Microtask # evs)) 1 =
      Pending"
    by (simp only: eq)
  have e: "deferred_of (run [?c, ?c, Microtask, ApplySettles 0 (Inr True), Microtask,
      ApplySettles 1 (Inl (HostError ''disk''))]) 1 = Rejected (HostError ''disk'')"
    by (simp add: chain_defs)
  have f: "applyEditCalls (run [?c, ?c, ?c, HostThrows 1, Microtask, ApplySettles 0 (Inr True),
      Microtask, Microtask]) = [0, 1, 2]"
    by (simp add: chain_defs)
  have p: "\<And>s. promise_of s (ReturnDeferred 0) = deferred_of s 0"
    "\<And>s. promise_of s (ReturnDeferred 1) = deferred_of s 1"
    by simp_all
  show ?thesis
    unfolding a p using b(1,2,3,4) d e f by (intro conjI) simp_all
qed

text \<open>
  Claim C3 (an operation whose \<open>update\<close> adds no edit applies nothing, and the operations
  enqueued after it on the same key still run in the order of their calls) does not hold for
  the code on a cell key, by the defect of claim C1: the map is asked for the document and
  read for the cell, so on a cell of a notebook whose document has no entry every call is
  chained on \<open>Promise.resolve()\<close>. After an empty operation on a cell, the edits of the two
  following operations on that cell are applied in the opposite order and are in flight
  together; and an operation on the cell is applying its edit while the empty operation
  before it still waits for its \<open>update\<close>. The empty operation itself applies nothing, and
  on a document key the order is kept (\<open>no_edits_keeps_the_chain\<close>).
\<close>

theorem cell_edits_after_an_empty_update_overlap:
  "target (run [Call (Cell 0 0) \<lparr>result = ReturnsVoid, edit_size = 0\<rparr>,
                Call (Cell 0 0) \<lparr>result = ReturnsPromise, edit_size = 1\<rparr>,
                Call (Cell 0 0) \<lparr>result = ReturnsVoid, edit_size = 1\<rparr>,
                Microtask, Microtask, Microtask, UpdateSettles 1 True]) 0 = Cell 0 0 \<and>
   target (run [Call (Cell 0 0) \<lparr>result = ReturnsVoid, edit_size = 0\<rparr>,
                Call (Cell 0 0) \<lparr>result = ReturnsPromise, edit_size = 1\<rparr>,
                Call (Cell 0 0) \<lparr>result = ReturnsVoid, edit_size = 1\<rparr>,
                Microtask, Microtask, Microtask, UpdateSettles 1 True]) 1 = Cell 0 0 \<and>
   target (run [Call (Cell 0 0) \<lparr>result = ReturnsVoid, edit_size = 0\<rparr>,
                Call (Cell 0 0) \<lparr>result = ReturnsPromise, edit_size = 1\<rparr>,
                Call (Cell 0 0) \<lparr>result = ReturnsVoid, edit_size = 1\<rparr>,
                Microtask, Microtask, Microtask, UpdateSettles 1 True]) 2 = Cell 0 0 \<and>
   edit_size (update_of (run [Call (Cell 0 0) \<lparr>result = ReturnsVoid, edit_size = 0\<rparr>,
                Call (Cell 0 0) \<lparr>result = ReturnsPromise, edit_size = 1\<rparr>,
                Call (Cell 0 0) \<lparr>result = ReturnsVoid, edit_size = 1\<rparr>,
                Microtask, Microtask, Microtask, UpdateSettles 1 True]) 0) = 0 \<and>
   updateCalls (run [Call (Cell 0 0) \<lparr>result = ReturnsVoid, edit_size = 0\<rparr>,
                Call (Cell 0 0) \<lparr>result = ReturnsPromise, edit_size = 1\<rparr>,
                Call (Cell 0 0) \<lparr>result = ReturnsVoid, edit_size = 1\<rparr>,
                Microtask, Microtask, Microtask, UpdateSettles 1 True]) = [0, 1, 2] \<and>
   applyEditCalls (run [Call (Cell 0 0) \<lparr>result = ReturnsVoid, edit_size = 0\<rparr>,
                Call (Cell 0 0) \<lparr>result = ReturnsPromise, edit_size = 1\<rparr>,
                Call (Cell 0 0) \<lparr>result = ReturnsVoid, edit_size = 1\<rparr>,
                Microtask, Microtask, Microtask, UpdateSettles 1 True]) = [2, 1] \<and>
   phase_of (run [Call (Cell 0 0) \<lparr>result = ReturnsVoid, edit_size = 0\<rparr>,
                Call (Cell 0 0) \<lparr>result = ReturnsPromise, edit_size = 1\<rparr>,
                Call (Cell 0 0) \<lparr>result = ReturnsVoid, edit_size = 1\<rparr>,
                Microtask, Microtask, Microtask, UpdateSettles 1 True]) 0 = Settled \<and>
   phase_of (run [Call (Cell 0 0) \<lparr>result = ReturnsVoid, edit_size = 0\<rparr>,
                Call (Cell 0 0) \<lparr>result = ReturnsPromise, edit_size = 1\<rparr>,
                Call (Cell 0 0) \<lparr>result = ReturnsVoid, edit_size = 1\<rparr>,
                Microtask, Microtask, Microtask, UpdateSettles 1 True]) 1 = Applying \<and>
   phase_of (run [Call (Cell 0 0) \<lparr>result = ReturnsVoid, edit_size = 0\<rparr>,
                Call (Cell 0 0) \<lparr>result = ReturnsPromise, edit_size = 1\<rparr>,
                Call (Cell 0 0) \<lparr>result = ReturnsVoid, edit_size = 1\<rparr>,
                Microtask, Microtask, Microtask, UpdateSettles 1 True]) 2 = Applying \<and>
   phase_of (run [Call (Cell 0 0) \<lparr>result = ReturnsPromise, edit_size = 0\<rparr>,
                Call (Cell 0 0) \<lparr>result = ReturnsVoid, edit_size = 1\<rparr>,
                Microtask, Microtask]) 0 = AwaitingUpdate \<and>
   phase_of (run [Call (Cell 0 0) \<lparr>result = ReturnsPromise, edit_size = 0\<rparr>,
                Call (Cell 0 0) \<lparr>result = ReturnsVoid, edit_size = 1\<rparr>,
                Microtask, Microtask]) 1 = Applying \<and>
   applyEditCalls (run [Call (Cell 0 0) \<lparr>result = ReturnsPromise, edit_size = 0\<rparr>,
                Call (Cell 0 0) \<lparr>result = ReturnsVoid, edit_size = 1\<rparr>,
                Microtask, Microtask]) = [1]"
  by (simp add: chain_defs)

text \<open>
  Claim C4 (the returned promise settles, with the outcome of \<open>applyEdit\<close>) does not hold for
  the code when \<open>update\<close> leaves the edit empty: the callback returns at
  \<open>if (edit.size === 0)\<close>, before the two handlers that settle \<open>deferred\<close> are installed.
  The call returns \<open>deferred.promise\<close>; it is pending when the callback has ended and
  \<open>aggregatedPromise\<close> has resolved, and it is still pending after every continuation.
\<close>

theorem promise_never_settles_without_edits:
  "fst (chainWithPendingUpdates (Document 0) \<lparr>result = ReturnsVoid, edit_size = 0\<rparr> loaded) =
      ReturnDeferred 0 \<and>
   phase_of (run [Call (Document 0) \<lparr>result = ReturnsVoid, edit_size = 0\<rparr>, Microtask]) 0 = Settled \<and>
   promise_of (run (Call (Document 0) \<lparr>result = ReturnsVoid, edit_size = 0\<rparr> # Microtask # evs))
      (ReturnDeferred 0) = Pending"
proof -
  let ?u = "\<lparr>result = ReturnsVoid, edit_size = 0\<rparr>"
  let ?pre = "[Call (Document 0) ?u, Microtask]"
  have a: "fst (chainWithPendingUpdates (Document 0) ?u loaded) = ReturnDeferred 0"
    by (simp add: chain_defs)
  have b: "phase_of (run ?pre) 0 = Settled" by (simp add: chain_defs)
  have c: "0 < count (run ?pre)" "update_of (run ?pre) 0 = ?u" by (simp_all add: chain_defs)
  have eq: "run (Call (Document 0) ?u # Microtask # evs) = foldl step (run ?pre) evs"
    by (simp add: run_def)
  from foldl_step_keeps [OF c(1), of evs] c(2)
  have "0 < count (foldl step (run ?pre) evs)"
    "edit_size (update_of (foldl step (run ?pre) evs) 0) = 0"
    by simp_all
  then have "0 < count (run (Call (Document 0) ?u # Microtask # evs))"
    "edit_size (update_of (run (Call (Document 0) ?u # Microtask # evs)) 0) = 0"
    by (simp_all only: eq)
  from no_edits_stays_pending(1) [OF this]
  have "deferred_of (run (Call (Document 0) ?u # Microtask # evs)) 0 = Pending" .
  with a b show ?thesis by simp
qed

text \<open>
  Claim C5 as it is stated (closing a document removes its entries, and no pending chain
  survives the close) fails: after the close the entry of the document is still in the map,
  and the operation that was queued before the close runs after it and calls \<open>applyEdit\<close>.
\<close>

theorem chain_survives_close:
  "pendingCellUpdates (run [Call (Document 0) \<lparr>result = ReturnsVoid, edit_size = 1\<rparr>,
        Call (Document 0) \<lparr>result = ReturnsVoid, edit_size = 1\<rparr>, Microtask, Close 0])
      (Document 0) = Some 1 \<and>
   applyEditCalls (run [Call (Document 0) \<lparr>result = ReturnsVoid, edit_size = 1\<rparr>,
        Call (Document 0) \<lparr>result = ReturnsVoid, edit_size = 1\<rparr>, Microtask, Close 0]) = [0] \<and>
   applyEditCalls (run [Call (Document 0) \<lparr>result = ReturnsVoid, edit_size = 1\<rparr>,
        Call (Document 0) \<lparr>result = ReturnsVoid, edit_size = 1\<rparr>, Microtask, Close 0,
        ApplySettles 0 (Inr True), Microtask]) = [0, 1]"
  by (simp add: chain_defs)

text \<open>
  Claim C5, amended. Closing a document changes nothing in the map, and no call, reaction
  or settlement ever removes an entry; a call on a closed document leaves the state as it is.
  \<open>clearPendingChainedUpdatesForTests\<close> removes the entries of the document of the active
  notebook editor and of its cells, and no other; without an active editor it does nothing.
  The map is empty when the module is loaded, so nothing is carried over a restart. The
  operations that were called before a close still run after it: once everything pending has
  settled, \<open>update\<close> of each of them has been called.
\<close>

theorem close_removes_no_entry:
  "pendingCellUpdates (step s (Close d)) = pendingCellUpdates s \<and>
   (pendingCellUpdates s k \<noteq> None \<longrightarrow> pendingCellUpdates (step s ev) k \<noteq> None) \<and>
   (isClosed s (notebook k) \<longrightarrow> snd (chainWithPendingUpdates k u s) = s) \<and>
   pendingCellUpdates (clearPendingChainedUpdatesForTests (Some (d, cells)) s) (Document d) = None \<and>
   (\<forall>c \<in> set cells.
      pendingCellUpdates (clearPendingChainedUpdatesForTests (Some (d, cells)) s) (Cell d c) = None) \<and>
   (k \<noteq> Document d \<and> k \<notin> Cell d ` set cells \<longrightarrow>
      pendingCellUpdates (clearPendingChainedUpdatesForTests (Some (d, cells)) s) k =
      pendingCellUpdates s k) \<and>
   clearPendingChainedUpdatesForTests None s = s \<and>
   pendingCellUpdates loaded k = None \<and>
   (\<forall>j<count (run (evs @ Close d # evs')).
      j \<in> set (updateCalls
        (settle_all fulfils answer (3 * count (run (evs @ Close d # evs')))
           (run (evs @ Close d # evs')))))"
proof -
  have "\<forall>j<count (run (evs @ Close d # evs')).
      j \<in> set (updateCalls
        (settle_all fulfils answer (3 * count (run (evs @ Close d # evs')))
           (run (evs @ Close d # evs'))))"
    using everything_runs(2) [OF invariant_run] by blast
  with step_keeps_entries [of s k ev] show ?thesis
    by (simp add: clearPendingChainedUpdatesForTests_def chainWithPendingUpdates_def loaded_def)
qed

theorem close_removes_no_entry_witness:
  "pendingCellUpdates (run [Call (Cell 0 1) \<lparr>result = ReturnsVoid, edit_size = 1\<rparr>]) (Cell 0 1) \<noteq> None \<and>
   pendingCellUpdates (step (run [Call (Cell 0 1) \<lparr>result = ReturnsVoid, edit_size = 1\<rparr>]) (Close 0))
      (Cell 0 1) \<noteq> None \<and>
   isClosed (step (run [Call (Cell 0 1) \<lparr>result = ReturnsVoid, edit_size = 1\<rparr>]) (Close 0))
      (notebook (Cell 0 1)) \<and>
   Cell 0 1 \<noteq> Document 0 \<and> Cell 0 1 \<notin> Cell 0 ` set [2] \<and>
   pendingCellUpdates (clearPendingChainedUpdatesForTests (Some (0, [2]))
      (run [Call (Cell 0 1) \<lparr>result = ReturnsVoid, edit_size = 1\<rparr>])) (Cell 0 1) = Some 0 \<and>
   pendingCellUpdates (clearPendingChainedUpdatesForTests (Some (0, [1]))
      (run [Call (Cell 0 1) \<lparr>result = ReturnsVoid, edit_size = 1\<rparr>])) (Cell 0 1) = None \<and>
   updateCalls (settle_all (\<lambda>j. True) (\<lambda>j. Inr True) 3
      (run [Call (Cell 0 1) \<lparr>result = ReturnsVoid, edit_size = 1\<rparr>, Close 0])) = [0] \<and>
   applyEditCalls (settle_all (\<lambda>j. True) (\<lambda>j. Inr True) 3
      (run [Call (Cell 0 1) \<lparr>result = ReturnsVoid, edit_size = 1\<rparr>, Close 0])) = [0]"
  using close_removes_no_entry
    [where s = "run [Call (Cell 0 1) \<lparr>result = ReturnsVoid, edit_size = 1\<rparr>]" and d = 0
       and k = "Cell 0 1" and ev = "Close 0" and cells = "[2]"
       and u = "\<lparr>result = ReturnsVoid, edit_size = 1\<rparr>"
       and evs = "[Call (Cell 0 1) \<lparr>result = ReturnsVoid, edit_size = 1\<rparr>]" and evs' = "[]"
       and fulfils = "\<lambda>j. True" and answer = "\<lambda>j. Inr True"]
    close_removes_no_entry
    [where s = "step (run [Call (Cell 0 1) \<lparr>result = ReturnsVoid, edit_size = 1\<rparr>]) (Close 0)"
       and d = 0 and k = "Cell 0 1" and ev = "Close 0" and cells = "[1]"
       and u = "\<lparr>result = ReturnsVoid, edit_size = 1\<rparr>"
       and evs = "[Call (Cell 0 1) \<lparr>result = ReturnsVoid, edit_size = 1\<rparr>]" and evs' = "[]"
       and fulfils = "\<lambda>j. True" and answer = "\<lambda>j. Inr True"]
  by (simp add: chain_defs clearPendingChainedUpdatesForTests_def next_event_def settle_all_unfold)

text \<open>
  Claim C6. When the notebook of the given document or cell is closed, the call returns a
  promise fulfilled with \<open>true\<close> and leaves the state as it is: no operation is created, so
  \<open>update\<close> is never called, and the map is not touched. That promise is in the state in
  which the promise of an operation is after \<open>applyEdit\<close> has answered \<open>true\<close>.
\<close>

theorem chainWithPendingUpdates_closed:
  "isClosed s (notebook docOrCell) \<Longrightarrow>
     chainWithPendingUpdates docOrCell upd s = (ReturnTrue, s) \<and>
     promise_of (snd (chainWithPendingUpdates docOrCell upd s))
        (fst (chainWithPendingUpdates docOrCell upd s)) = Fulfilled True \<and>
     (i < count t \<and> phase_of t i = Applying \<longrightarrow>
        promise_of (step t (ApplySettles i (Inr True))) (ReturnDeferred i) =
        promise_of (snd (chainWithPendingUpdates docOrCell upd s))
          (fst (chainWithPendingUpdates docOrCell upd s)))"
  by (simp add: chainWithPendingUpdates_def)

theorem chainWithPendingUpdates_closed_witness:
  "isClosed (run [Call (Cell 0 1) \<lparr>result = ReturnsVoid, edit_size = 1\<rparr>, Microtask, Close 0])
      (notebook (Cell 0 1)) \<and>
   chainWithPendingUpdates (Cell 0 1) \<lparr>result = ReturnsVoid, edit_size = 1\<rparr>
      (run [Call (Cell 0 1) \<lparr>result = ReturnsVoid, edit_size = 1\<rparr>, Microtask, Close 0]) =
     (ReturnTrue, run [Call (Cell 0 1) \<lparr>result = ReturnsVoid, edit_size = 1\<rparr>, Microtask, Close 0]) \<and>
   updateCalls (run [Call (Cell 0 1) \<lparr>result = ReturnsVoid, edit_size = 1\<rparr>, Microtask, Close 0,
                     Call (Cell 0 1) \<lparr>result = ReturnsVoid, edit_size = 1\<rparr>, Microtask]) = [0] \<and>
   0 < count (run [Call (Cell 0 1) \<lparr>result = ReturnsVoid, edit_size = 1\<rparr>, Microtask]) \<and>
   phase_of (run [Call (Cell 0 1) \<lparr>result = ReturnsVoid, edit_size = 1\<rparr>, Microtask]) 0 = Applying \<and>
   promise_of (step (run [Call (Cell 0 1) \<lparr>result = ReturnsVoid, edit_size = 1\<rparr>, Microtask])
      (ApplySettles 0 (Inr True))) (ReturnDeferred 0) = Fulfilled True"
  using chainWithPendingUpdates_closed
    [where s = "run [Call (Cell 0 1) \<lparr>result = ReturnsVoid, edit_size = 1\<rparr>, Microtask, Close 0]"
       and docOrCell = "Cell 0 1" and i = 0
       and t = "run [Call (Cell 0 1) \<lparr>result = ReturnsVoid, edit_size = 1\<rparr>, Microtask]"
       and upd = "\<lparr>result = ReturnsVoid, edit_size = 1\<rparr>"]
  by (simp add: chain_defs)

end
